theory Spec2Isabelle
  imports Main "HOL-Library.Signed_Division"
begin

section \<open>Data model of simon_v6.c\<close>

text \<open>
  A board is the block of \<open>BOARDSIZE\<close> C ints behind an \<open>int *\<close>: the list of its cells.
  The cell codes and the eight ray directions are the constants of the source.
  C's \<open>int\<close> is modelled by \<open>int\<close>: no value computed here leaves the 32-bit range
  (counts are at most 88, weights at most 120, scores a few hundred thousand).
  C's \<open>/\<close> truncates towards zero: it is \<open>sdiv\<close>.
\<close>

type_synonym board = "int list"

abbreviation (input) EMPTY :: int where "EMPTY \<equiv> 0"
abbreviation (input) BLACK :: int where "BLACK \<equiv> 1"
abbreviation (input) WHITE :: int where "WHITE \<equiv> 2"
abbreviation (input) OUTER :: int where "OUTER \<equiv> 3"

definition ALLDIRECTIONS :: "int list" where
  "ALLDIRECTIONS = [-11, -10, -9, -1, 1, 9, 10, 11]"

definition weights :: "int list" where
  "weights = [0, 0, 0, 0, 0, 0, 0, 0, 0, 0,
              0, 120, -20, 20, 5, 5, 20, -20, 120, 0,
              0, -20, -40, -5, -5, -5, -5, -40, -20, 0,
              0, 20, -5, 15, 3, 3, 15, -5, 20, 0,
              0, 5, -5, 3, 3, 3, 3, -5, 5, 0,
              0, 5, -5, 3, 3, 3, 3, -5, 5, 0,
              0, 20, -5, 15, 3, 3, 15, -5, 20, 0,
              0, -20, -40, -5, -5, -5, -5, -40, -20, 0,
              0, 120, -20, 20, 5, 5, 20, -20, 120, 0,
              0, 0, 0, 0, 0, 0, 0, 0, 0, 0]"

text \<open>
  What a C function can do besides returning a value: read or write outside a block
  (\<open>OutOfBounds\<close>), divide by zero (\<open>DivByZero\<close>), or loop forever. A result is
  \<open>None\<close> when the call does not return, \<open>Some (Inl e)\<close> when it runs into the
  undefined behaviour \<open>e\<close>, and \<open>Some (Inr v)\<close> when it returns \<open>v\<close>.
\<close>

datatype error = OutOfBounds | DivByZero

type_synonym 'a res = "(error + 'a) option"

abbreviation (input) ok :: "'a \<Rightarrow> 'a res" where "ok v \<equiv> Some (Inr v)"
abbreviation (input) fail :: "error \<Rightarrow> 'a res" where "fail e \<equiv> Some (Inl e)"

text \<open>\<open>b[i]\<close> as an rvalue, and the assignment \<open>b[i] = v\<close>.\<close>

definition rd :: "board \<Rightarrow> int \<Rightarrow> int res" where
  "rd b i = (if 0 \<le> i \<and> i < int (length b) then ok (b ! nat i) else fail OutOfBounds)"

definition wr :: "board \<Rightarrow> int \<Rightarrow> int \<Rightarrow> board res" where
  "wr b i v = (if 0 \<le> i \<and> i < int (length b) then ok (b[nat i := v]) else fail OutOfBounds)"

text \<open>\<open>initialise_board\<close>: the sentinel ring, the empty interior, the four centre pieces.\<close>

definition initialise_board :: board where
  "initialise_board =
     (map (\<lambda>i. if i \<le> 9 then OUTER
                else if i \<le> 89 then (if i mod 10 \<ge> 1 \<and> i mod 10 \<le> 8 then EMPTY else OUTER)
                else OUTER) [0 ..< 100])
     [44 := WHITE, 45 := BLACK, 54 := BLACK, 55 := WHITE]"

section \<open>Move engine\<close>

text \<open>
  The move engine of the source has no board parameter: \<open>legalp\<close>, \<open>would_flip\<close>,
  \<open>find_bracket_piece\<close>, \<open>make_flips\<close> and \<open>make_move\<close> read and write the block
  behind the global pointer \<open>board\<close>. In the model the first argument \<open>b\<close> of these
  functions is the content of that block, and the writers return the new content.
  The log stream \<open>fp\<close> is left out. Functions that return a C truth value (0 or 1)
  return \<open>bool\<close>.
\<close>

definition opponent :: "int \<Rightarrow> int" where
  "opponent player = (if player = BLACK then WHITE else if player = WHITE then BLACK else EMPTY)"

definition validp :: "int \<Rightarrow> bool" where
  "validp move \<longleftrightarrow> move \<ge> 11 \<and> move \<le> 88 \<and> move smod 10 \<ge> 1 \<and> move smod 10 \<le> 8"

text \<open>
  The scan loop \<open>while (board[square] == opponent(player)) square = square + dir;\<close>
  has no bound of its own, so it is a partial function.
\<close>

partial_function (option) find_bracket_piece :: "board \<Rightarrow> int \<Rightarrow> int \<Rightarrow> int \<Rightarrow> int res" where
  "find_bracket_piece b square dir player =
     (if 0 \<le> square \<and> square < int (length b) then
        (if b ! nat square = opponent player then find_bracket_piece b (square + dir) dir player
         else if b ! nat square = player then ok square
         else ok 0)
      else fail OutOfBounds)"

declare find_bracket_piece.simps [code]

definition would_flip :: "board \<Rightarrow> int \<Rightarrow> int \<Rightarrow> int \<Rightarrow> int res" where
  "would_flip b move dir player =
     (let c = move + dir in
      case rd b c of
        None \<Rightarrow> None
      | Some (Inl e) \<Rightarrow> fail e
      | Some (Inr v) \<Rightarrow>
          if v = opponent player then find_bracket_piece b (c + dir) dir player else ok 0)"

text \<open>\<open>while (i <= 7 && !would_flip(move, ALLDIRECTIONS[i], player, fp)) i++;\<close>\<close>

function legalp_loop :: "board \<Rightarrow> int \<Rightarrow> int \<Rightarrow> nat \<Rightarrow> nat res" where
  "legalp_loop b move player i =
     (if i \<le> 7 then
        (case would_flip b move (ALLDIRECTIONS ! i) player of
           None \<Rightarrow> None
         | Some (Inl e) \<Rightarrow> fail e
         | Some (Inr r) \<Rightarrow> if r = 0 then legalp_loop b move player (i + 1) else ok i)
      else ok i)"
  by pat_completeness auto
termination
  by (relation "measure (\<lambda>(b, move, player, i). 8 - i)") auto

definition legalp :: "board \<Rightarrow> int \<Rightarrow> int \<Rightarrow> bool res" where
  "legalp b move player =
     (if \<not> validp move then ok False
      else case rd b move of
        None \<Rightarrow> None
      | Some (Inl e) \<Rightarrow> fail e
      | Some (Inr v) \<Rightarrow>
          if v = EMPTY then
            (case legalp_loop b move player 0 of
               None \<Rightarrow> None
             | Some (Inl e) \<Rightarrow> fail e
             | Some (Inr i) \<Rightarrow> if i = 8 then ok False else ok True)
          else ok False)"

text \<open>
  \<open>legal_moves\<close> fills \<open>moves[1..n]\<close> and stores \<open>n\<close> in \<open>moves[0]\<close>; the model
  returns the list \<open>moves[1..n]\<close>, whose length is \<open>moves[0]\<close>. The buffer has 65
  entries and there are 64 interior cells, so the writes stay inside it.
\<close>

function legal_moves_loop :: "board \<Rightarrow> int \<Rightarrow> int \<Rightarrow> int list \<Rightarrow> int list res" where
  "legal_moves_loop b player move moves =
     (if move \<le> 88 then
        (case legalp b move player of
           None \<Rightarrow> None
         | Some (Inl e) \<Rightarrow> fail e
         | Some (Inr l) \<Rightarrow>
             legal_moves_loop b player (move + 1) (if l then moves @ [move] else moves))
      else ok moves)"
  by pat_completeness auto
termination
  by (relation "measure (\<lambda>(b, player, move, moves). nat (89 - move))") auto

definition legal_moves :: "board \<Rightarrow> int \<Rightarrow> int list res" where
  "legal_moves b player = legal_moves_loop b player 11 []"

text \<open>
  \<open>num_valid_moves(player, board, fp)\<close> never reads its \<open>board\<close> argument: it calls
  \<open>legalp\<close>, which reads the global board \<open>b\<close>. The unused argument is kept.
\<close>

function num_valid_moves_loop :: "board \<Rightarrow> int \<Rightarrow> int \<Rightarrow> int \<Rightarrow> int res" where
  "num_valid_moves_loop b player move i =
     (if move \<le> 88 then
        (case legalp b move player of
           None \<Rightarrow> None
         | Some (Inl e) \<Rightarrow> fail e
         | Some (Inr l) \<Rightarrow> num_valid_moves_loop b player (move + 1) (if l then i + 1 else i))
      else ok i)"
  by pat_completeness auto
termination
  by (relation "measure (\<lambda>(b, player, move, i). nat (89 - move))") auto

definition num_valid_moves :: "board \<Rightarrow> int \<Rightarrow> board \<Rightarrow> int res" where
  "num_valid_moves b player board_arg = num_valid_moves_loop b player 11 0"

text \<open>
  The flipping loop \<open>do { board[c] = player; c = c + dir; } while (c != bracketer);\<close>
  stops only when \<open>c\<close> hits \<open>bracketer\<close> exactly: a partial function again.
\<close>

partial_function (option) make_flips_loop :: "board \<Rightarrow> int \<Rightarrow> int \<Rightarrow> int \<Rightarrow> int \<Rightarrow> board res" where
  "make_flips_loop b c dir bracketer player =
     (if 0 \<le> c \<and> c < int (length b) then
        (if c + dir \<noteq> bracketer
         then make_flips_loop (b[nat c := player]) (c + dir) dir bracketer player
         else ok (b[nat c := player]))
      else fail OutOfBounds)"

declare make_flips_loop.simps [code]

definition make_flips :: "board \<Rightarrow> int \<Rightarrow> int \<Rightarrow> int \<Rightarrow> board res" where
  "make_flips b move dir player =
     (case would_flip b move dir player of
        None \<Rightarrow> None
      | Some (Inl e) \<Rightarrow> fail e
      | Some (Inr bracketer) \<Rightarrow>
          if bracketer \<noteq> 0 then make_flips_loop b (move + dir) dir bracketer player else ok b)"

function make_move_loop :: "board \<Rightarrow> int \<Rightarrow> int \<Rightarrow> nat \<Rightarrow> board res" where
  "make_move_loop b move player i =
     (if i \<le> 7 then
        (case make_flips b move (ALLDIRECTIONS ! i) player of
           None \<Rightarrow> None
         | Some (Inl e) \<Rightarrow> fail e
         | Some (Inr b') \<Rightarrow> make_move_loop b' move player (i + 1))
      else ok b)"
  by pat_completeness auto
termination
  by (relation "measure (\<lambda>(b, move, player, i). 8 - i)") auto

definition make_move :: "board \<Rightarrow> int \<Rightarrow> int \<Rightarrow> board res" where
  "make_move b move player =
     (case wr b move player of
        None \<Rightarrow> None
      | Some (Inl e) \<Rightarrow> fail e
      | Some (Inr b') \<Rightarrow> make_move_loop b' move player 0)"

text \<open>\<open>count\<close> walks the cells 1 to 88 of the board it is given.\<close>

function count_loop :: "int \<Rightarrow> board \<Rightarrow> int \<Rightarrow> int \<Rightarrow> int res" where
  "count_loop player b i cnt =
     (if i \<le> 88 then
        (case rd b i of
           None \<Rightarrow> None
         | Some (Inl e) \<Rightarrow> fail e
         | Some (Inr v) \<Rightarrow> count_loop player b (i + 1) (if v = player then cnt + 1 else cnt))
      else ok cnt)"
  by pat_completeness auto
termination
  by (relation "measure (\<lambda>(player, b, i, cnt). nat (89 - i))") auto

definition count :: "int \<Rightarrow> board \<Rightarrow> int res" where
  "count player b = count_loop player b 1 0"

text \<open>
  Sequencing two calls: the second runs only if the first returned normally. The
  functions above write this case distinction out.
\<close>

abbreviation (input) seq :: "'a res \<Rightarrow> ('a \<Rightarrow> 'b res) \<Rightarrow> 'b res" where
  "seq m f \<equiv> (case m of None \<Rightarrow> None | Some (Inl e) \<Rightarrow> fail e | Some (Inr v) \<Rightarrow> f v)"

section \<open>Evaluator\<close>

text \<open>
  \<open>game_stage\<close> has no parameters: it reads the global board \<open>g\<close> and the global
  \<open>my_colour\<close> (the argument \<open>mc\<close>).
\<close>

function game_stage_loop :: "board \<Rightarrow> int \<Rightarrow> int \<Rightarrow> int \<Rightarrow> int \<times> int \<Rightarrow> (int \<times> int) res" where
  "game_stage_loop g mc opp i pc =
     (if i \<le> 88 then
        seq (rd g i) (\<lambda>v.
          game_stage_loop g mc opp (i + 1)
            (if v = mc then (fst pc + 1, snd pc)
             else if v = opp then (fst pc, snd pc + 1)
             else pc))
      else ok pc)"
  by pat_completeness auto
termination
  by (relation "measure (\<lambda>(g, mc, opp, i, pc). nat (89 - i))") auto

definition game_stage :: "board \<Rightarrow> int \<Rightarrow> int res" where
  "game_stage g mc =
     seq (game_stage_loop g mc (opponent mc) 1 (0, 0)) (\<lambda>(pcoins, ocoins).
       let total = pcoins + ocoins in
       ok (if total \<le> 20 then 1
           else if total > 20 \<and> total \<le> 40 then 2
           else if total > 40 then 3
           else 0))"

text \<open>
  The first loop of \<open>evaluate\<close>, over the cells 1 to 88 of the board argument; the
  accumulator is \<open>(pcnt, pcoins, ocnt, ocoins)\<close>.
\<close>

function evaluate_loop ::
  "int \<Rightarrow> int \<Rightarrow> board \<Rightarrow> int \<Rightarrow> int \<times> int \<times> int \<times> int \<Rightarrow> (int \<times> int \<times> int \<times> int) res" where
  "evaluate_loop player opp b i acc =
     (if i \<le> 88 then
        seq (rd b i) (\<lambda>v.
          evaluate_loop player opp b (i + 1)
            (case acc of (pcnt, pcoins, ocnt, ocoins) \<Rightarrow>
               if v = player then (pcnt + weights ! nat i, pcoins + 1, ocnt, ocoins)
               else if v = opp then (pcnt, pcoins, ocnt + weights ! nat i, ocoins + 1)
               else acc))
      else ok acc)"
  by pat_completeness auto
termination
  by (relation "measure (\<lambda>(player, opp, b, i, acc). nat (89 - i))") auto

text \<open>
  The statement \<open>if (board[k] == player) pcoins++; else if (board[k] == opp) ocoins++;\<close>
  that the corner sections repeat, and a run of such statements for the cells \<open>ks\<close>.
\<close>

definition tally :: "board \<Rightarrow> int \<Rightarrow> int \<Rightarrow> int \<times> int \<Rightarrow> int \<Rightarrow> (int \<times> int) res" where
  "tally b player opp pc k =
     seq (rd b k) (\<lambda>v.
       ok (if v = player then (fst pc + 1, snd pc)
           else if v = opp then (fst pc, snd pc + 1)
           else pc))"

fun tally_all :: "board \<Rightarrow> int \<Rightarrow> int \<Rightarrow> int \<times> int \<Rightarrow> int list \<Rightarrow> (int \<times> int) res" where
  "tally_all b player opp pc [] = ok pc"
| "tally_all b player opp pc (k # ks) =
     seq (tally b player opp pc k) (\<lambda>pc'. tally_all b player opp pc' ks)"

text \<open>
  One block of the corner-closeness section: \<open>if (board[corner] == '.') { ... }\<close>.
  The comparison is with the character \<open>'.'\<close>, the int 46.
\<close>

definition closeness_at :: "board \<Rightarrow> int \<Rightarrow> int \<Rightarrow> int \<times> int \<Rightarrow> int \<Rightarrow> int list \<Rightarrow> (int \<times> int) res" where
  "closeness_at b player opp pc corner adj =
     seq (rd b corner) (\<lambda>v. if v = 46 then tally_all b player opp pc adj else ok pc)"

text \<open>
  The five heuristics as \<open>evaluate\<close> holds them just before it computes \<open>final\<close>
  (\<open>mobility\<close> already scaled by the game stage).
\<close>

record eval_terms =
  position :: int
  parity :: int
  mobility :: int
  corner_occ :: int
  cc :: int

text \<open>
  \<open>evaluate(player, board, fp)\<close> up to the scaling of \<open>mobility\<close>. \<open>g\<close> is the
  global board, which \<open>num_valid_moves\<close> and \<open>game_stage\<close> read, \<open>mc\<close> the global
  \<open>my_colour\<close>, \<open>b\<close> the board argument. The double product \<open>-12.5 * (pcoins - ocoins)\<close>
  is exact, and its conversion to \<open>int\<close> truncates towards zero.
\<close>

definition evaluate_terms :: "board \<Rightarrow> int \<Rightarrow> int \<Rightarrow> board \<Rightarrow> eval_terms res" where
  "evaluate_terms g mc player b =
     (let opp = opponent player in
      seq (num_valid_moves g player b) (\<lambda>omoves.
      seq (num_valid_moves g player b) (\<lambda>pmoves.
      seq (evaluate_loop player opp b 1 (0, 0, 0, 0)) (\<lambda>(pcnt, pcoins, ocnt, ocoins).
      let position = pcnt - ocnt in
      seq (if pcoins + ocoins = 0 then fail DivByZero
           else ok (100 * (pcoins - ocoins) sdiv (pcoins + ocoins))) (\<lambda>parity.
      let mobility = (if pmoves + omoves \<noteq> 0
                      then 100 * (pmoves - omoves) sdiv (pmoves + omoves) else 0) in
      seq (tally_all b player opp (0, 0) [11, 18, 81, 88]) (\<lambda>(pcoins, ocoins).
      let corner_occ = 25 * (pcoins - ocoins) in
      seq (closeness_at b player opp (0, 0) 11 [12, 22, 21]) (\<lambda>pc.
      seq (closeness_at b player opp pc 18 [17, 27, 28]) (\<lambda>pc.
      seq (closeness_at b player opp pc 81 [82, 72, 71]) (\<lambda>pc.
      seq (closeness_at b player opp pc 88 [78, 77, 87]) (\<lambda>(pcoins, ocoins).
      let cc = (- 125 * (pcoins - ocoins)) sdiv 10 in
      seq (game_stage g mc) (\<lambda>stage.
      ok \<lparr>position = position, parity = parity, mobility = (3 - stage) * mobility,
          corner_occ = corner_occ, cc = cc\<rparr>)))))))))))"

text \<open>
  \<open>final = position + (10 * parity) + (78.922 * mobility) + (801.724 * corner_occ)
  + (382.026 * cc)\<close> is a double sum converted to \<open>int\<close>. The model computes the sum
  of the decimal constants exactly, in thousandths, and truncates towards zero. The
  double sum is within \<open>1e-9\<close> of the exact one, so both truncate to the same int
  unless the exact sum is an integer reached through inexact products; when \<open>mobility\<close>
  and \<open>cc\<close> are 0 the fraction of the exact sum is one of 0, .1, .2, .3, .4, .6, .7, .8,
  .9, and it is 0 only if \<open>corner_occ\<close> is 0, where every product is exactly 0.
\<close>

definition final :: "eval_terms \<Rightarrow> int" where
  "final t = (1000 * (position t + 10 * parity t) + 78922 * mobility t
              + 801724 * corner_occ t + 382026 * cc t) sdiv 1000"

definition evaluate :: "board \<Rightarrow> int \<Rightarrow> int \<Rightarrow> board \<Rightarrow> int res" where
  "evaluate g mc player b = seq (evaluate_terms g mc player b) (\<lambda>t. ok (final t))"

section \<open>Search engine\<close>

text \<open>
  The search juggles pointers: the global \<open>board\<close> is reassigned to fresh copies, and
  the \<open>sent_board\<close> argument may or may not be the global pointer. The state is the
  store of allocated blocks with the globals the search reads. \<open>malloc\<close> is assumed
  to succeed and returns the fresh address \<open>brk\<close>; \<open>free\<close> is left out, since no
  block is used after it is freed.
\<close>

record state =
  heap :: "nat \<Rightarrow> board"
  brk :: nat
  board :: nat
  my_colour :: int
  size_mpi :: int

definition copy_board :: "state \<Rightarrow> nat \<Rightarrow> nat \<times> state" where
  "copy_board s p = (brk s, s\<lparr>heap := (heap s)(brk s := heap s p), brk := brk s + 1\<rparr>)"

text \<open>The block behind the global pointer, and \<open>make_move\<close> writing it.\<close>

definition cur :: "state \<Rightarrow> board" where
  "cur s = heap s (board s)"

definition make_move_g :: "state \<Rightarrow> int \<Rightarrow> int \<Rightarrow> state res" where
  "make_move_g s move player =
     seq (make_move (cur s) move player) (\<lambda>b'. ok (s\<lparr>heap := (heap s)(board s := b')\<rparr>))"

definition evaluate_g :: "state \<Rightarrow> int \<Rightarrow> nat \<Rightarrow> int res" where
  "evaluate_g s player p = evaluate (cur s) (my_colour s) player (heap s p)"

text \<open>
  \<open>dynamic_depth\<close> returns one of 0, 4, 5, 6, 7, so the depth of \<open>alpha_beta\<close> is a
  \<open>nat\<close>.
\<close>

definition dynamic_depth :: "int \<Rightarrow> int \<Rightarrow> nat" where
  "dynamic_depth sz moves =
     (if moves \<ge> 3 \<and> moves < 8 then 6
      else if moves \<ge> 8 \<and> moves < 15 then 5
      else if moves \<ge> 15 then 4
      else if sz = 1 then 0
      else 7)"

text \<open>
  \<open>alpha_beta\<close> and its loop over the opponent's replies. The loop carries \<open>alpha\<close>
  and \<open>beta\<close>; \<open>d\<close> is \<open>depth - 1\<close>. The first \<open>legal_moves\<close> call of
  \<open>alpha_beta\<close> only fills a buffer that is overwritten or dropped.
\<close>

function alpha_beta :: "state \<Rightarrow> int \<Rightarrow> int \<Rightarrow> int \<Rightarrow> int \<Rightarrow> nat \<Rightarrow> nat \<Rightarrow> (int \<times> state) res"
  and alpha_beta_loop ::
    "state \<Rightarrow> int list \<Rightarrow> int \<Rightarrow> int \<Rightarrow> int \<Rightarrow> nat \<Rightarrow> nat \<Rightarrow> (int \<times> int \<times> state) res"
where
  "alpha_beta s move_made alpha beta colour depth sent_board =
     seq (legal_moves (cur s) (my_colour s)) (\<lambda>moves0.
       case copy_board s sent_board of (new_board0, s1) \<Rightarrow>
       if depth = 0 then seq (evaluate_g s1 (my_colour s1) new_board0) (\<lambda>r. ok (r, s1))
       else
         seq (make_move_g s1 move_made colour) (\<lambda>s2.
           case copy_board s2 sent_board of (new_board, s3) \<Rightarrow>
           seq (legal_moves (cur s3) (opponent colour)) (\<lambda>moves.
             if moves = [] then seq (evaluate_g s3 (my_colour s3) new_board) (\<lambda>r. ok (r, s3))
             else
               seq (alpha_beta_loop s3 moves alpha beta colour (depth - 1) new_board)
                 (\<lambda>(alpha', beta', s4).
                    ok (if colour = my_colour s4 then alpha' else beta', s4)))))"
| "alpha_beta_loop s [] alpha beta colour d new_board = ok (alpha, beta, s)"
| "alpha_beta_loop s (m # ms) alpha beta colour d new_board =
     seq (alpha_beta s m alpha beta (opponent colour) d new_board) (\<lambda>(result, s1).
       case copy_board s1 new_board of (p, s2) \<Rightarrow>
       seq (make_move_g (s2\<lparr>board := p\<rparr>) m colour) (\<lambda>s3.
         let alpha' = (if colour = my_colour s3 \<and> result > alpha then result else alpha);
             beta' = (if colour \<noteq> my_colour s3 \<and> result < beta then result else beta)
         in if alpha' \<ge> beta' then ok (alpha', beta', s3)
            else alpha_beta_loop s3 ms alpha' beta' colour d new_board))"
  by pat_completeness auto
termination
  by (relation "inv_image (less_than <*lex*> less_than) (\<lambda>x. case x of
        Inl (s, move_made, alpha, beta, colour, depth, sent_board) \<Rightarrow> (2 * depth, 0)
      | Inr (s, ms, alpha, beta, colour, d, new_board) \<Rightarrow> (2 * d + 1, length ms))")
    auto

text \<open>
  \<open>minimax\<close> takes the depth from the number of legal moves of the global
  \<open>my_colour\<close> on the global board.
\<close>

definition minimax :: "state \<Rightarrow> int \<Rightarrow> int \<Rightarrow> nat \<Rightarrow> (int \<times> state) res" where
  "minimax s move colour sent_board =
     seq (legal_moves (cur s) (my_colour s)) (\<lambda>moves.
       let moves_avail = int (length moves);
           depth = dynamic_depth (size_mpi s) moves_avail
       in alpha_beta s move (- 10000) 10000 colour depth sent_board)"

section \<open>Coordinator\<close>

text \<open>
  \<open>serial\<close>: the single-process move generation. Its parameter \<open>my_colour\<close>
  shadows the global of that name (argument \<open>colour\<close>); \<open>minimax\<close> still reads the
  global. The loop carries \<open>best_move\<close> and \<open>best_score\<close>.
\<close>

fun serial_loop :: "state \<Rightarrow> int \<Rightarrow> nat \<Rightarrow> int list \<Rightarrow> int \<Rightarrow> int \<Rightarrow> (int \<times> state) res" where
  "serial_loop s colour new_board [] best_move best_score = ok (best_move, s)"
| "serial_loop s colour new_board (m # ms) best_move best_score =
     seq (minimax s m colour (board s)) (\<lambda>(result, s1).
       case copy_board s1 new_board of (p, s2) \<Rightarrow>
       seq (make_move_g (s2\<lparr>board := p\<rparr>) m colour) (\<lambda>s3.
         if result > best_score then serial_loop s3 colour new_board ms m result
         else serial_loop s3 colour new_board ms best_move best_score))"

definition serial :: "state \<Rightarrow> int \<Rightarrow> (int \<times> state) res" where
  "serial s colour =
     seq (legal_moves (cur s) colour) (\<lambda>moves.
       if moves = [] then ok (- 1, s)
       else case copy_board s (board s) of (new_board, s1) \<Rightarrow>
         serial_loop s1 colour new_board moves (- 100) (- 2000))"

text \<open>
  The selection at the end of \<open>gen_move_master\<close>. \<open>recs\<close> is the list of the
  \<open>moves_rec\<close> recorded pairs \<open>(rec_Moves[i], rec_Scores[i])\<close>, in the order of
  arrival. \<open>best_move\<close> starts as \<open>rec_Moves[0]\<close>, a read outside the block when
  nothing was recorded.
\<close>

fun select_loop :: "(int \<times> int) list \<Rightarrow> int \<Rightarrow> int \<Rightarrow> int \<times> int" where
  "select_loop [] best_move best_score = (best_move, best_score)"
| "select_loop ((m, sc) # recs) best_move best_score =
     (if sc > best_score then select_loop recs m sc
      else select_loop recs best_move best_score)"

definition select_best :: "(int \<times> int) list \<Rightarrow> int res" where
  "select_best recs =
     (case recs of
        [] \<Rightarrow> fail OutOfBounds
      | r # _ \<Rightarrow> ok (fst (select_loop recs (fst r) (- 2000))))"

section \<open>Move strings\<close>

text \<open>
  A move string is the content of a \<open>char\<close> buffer. \<open>get_move_string\<close> writes
  \<open>ms[0..3]\<close>, the last one the terminating NUL; storing an int in a \<open>char\<close> keeps
  its low 8 bits. \<open>get_loc\<close> reads \<open>movestring[0]\<close> and \<open>movestring[1]\<close> as
  signed chars.
\<close>

definition get_move_string :: "int \<Rightarrow> string" where
  "get_move_string loc =
     (let new_loc = loc - (9 + 2 * (loc sdiv 10));
          row = new_loc sdiv 8;
          col = new_loc smod 8
      in [char_of (row + 48), char_of (col + 48), CHR 0x0A, CHR 0x00])"

definition schar :: "char \<Rightarrow> int" where
  "schar c = (if of_char c < (128 :: int) then of_char c else of_char c - 256)"

definition get_loc :: "string \<Rightarrow> int res" where
  "get_loc movestring =
     (if length movestring < 2 then fail OutOfBounds
      else let row = schar (movestring ! 0) - 48;
               col = schar (movestring ! 1) - 48
           in ok (10 * (row + 1) + col + 1))"

section \<open>Boards and inputs used below\<close>

text \<open>
  The precondition of the ray scans: a block of 100 cells whose cells outside the
  8 by 8 interior all hold \<open>OUTER\<close>.
\<close>

definition sentinel_border :: "board \<Rightarrow> bool" where
  "sentinel_border b \<longleftrightarrow>
     length b = 100 \<and> (\<forall>i \<in> set [0 ..< 100]. \<not> validp (int i) \<longrightarrow> b ! i = OUTER)"

text \<open>The board of \<open>initialise_board\<close> before the four centre pieces are placed.\<close>

definition empty_interior :: board where
  "empty_interior =
     map (\<lambda>i. if i \<le> 9 then OUTER
               else if i \<le> 89 then (if i mod 10 \<ge> 1 \<and> i mod 10 \<le> 8 then EMPTY else OUTER)
               else OUTER) [0 ..< 100]"

text \<open>
  The position after the eight plies e6 f4 e3 f6 g5 d6 e7 f5 of a legal game (cells
  65, 46, 35, 66, 57, 64, 75, 56), BLACK to move. BLACK has seven legal moves; the
  move 53 takes every WHITE piece.
\<close>

definition wipeout_board :: board where
  "wipeout_board =
     empty_interior[35 := BLACK,
                    44 := WHITE, 45 := BLACK, 46 := BLACK,
                    54 := WHITE, 55 := WHITE, 56 := WHITE, 57 := BLACK,
                    64 := WHITE, 65 := BLACK, 66 := BLACK,
                    75 := BLACK]"

definition wipeout_board_after :: board where
  "wipeout_board_after =
     wipeout_board[53 := BLACK, 44 := BLACK, 54 := BLACK, 55 := BLACK, 56 := BLACK,
                   64 := BLACK]"

text \<open>
  The coordinator in single-process mode, playing BLACK, with \<open>wipeout_board\<close> as its
  authoritative board in block 0.
\<close>

definition wipeout_state :: state where
  "wipeout_state =
     \<lparr>heap = (\<lambda>_. [])(0 := wipeout_board), brk = 1, board = 0, my_colour = BLACK,
      size_mpi = 1\<rparr>"

text \<open>
  BLACK on 22, 23 and 32 around a WHITE piece on 33: BLACK has the three legal moves
  34, 43 and 44, each of which takes the only WHITE piece.
\<close>

definition search_board :: board where
  "search_board = empty_interior[22 := BLACK, 23 := BLACK, 32 := BLACK, 33 := WHITE]"

definition search_state :: state where
  "search_state =
     \<lparr>heap = (\<lambda>_. [])(0 := search_board), brk = 1, board = 0, my_colour = BLACK,
      size_mpi = 1\<rparr>"

text \<open>
  WHITE, BLACK, WHITE in a row: BLACK can play 43 or 47, WHITE cannot move. With two
  legal moves in single-process mode \<open>dynamic_depth\<close> is 0.
\<close>

definition mobility_board :: board where
  "mobility_board = empty_interior[44 := WHITE, 45 := BLACK, 46 := WHITE]"

definition mobility_board_after :: board where
  "mobility_board_after = mobility_board[43 := BLACK, 44 := BLACK]"

definition depth0_state :: state where
  "depth0_state =
     \<lparr>heap = (\<lambda>_. [])(0 := mobility_board), brk = 1, board = 0, my_colour = BLACK,
      size_mpi = 1\<rparr>"

text \<open>The same row with WHITE on the corner 11.\<close>

definition corner_board :: board where
  "corner_board = empty_interior[11 := WHITE, 44 := WHITE, 45 := BLACK, 46 := WHITE]"

definition corner_state :: state where
  "corner_state =
     \<lparr>heap = (\<lambda>_. [])(0 := corner_board), brk = 1, board = 0, my_colour = BLACK,
      size_mpi = 1\<rparr>"

text \<open>The corner 11 is empty and BLACK holds the cell 12 next to it.\<close>

definition closeness_board :: board where
  "closeness_board = empty_interior[12 := BLACK]"

text \<open>
  The cell 22 is already BLACK and brackets the WHITE pieces on 23 and 32 with the
  BLACK pieces on 24 and 42.
\<close>

definition occupied_board :: board where
  "occupied_board =
     empty_interior[22 := BLACK, 23 := WHITE, 24 := BLACK, 32 := WHITE, 42 := BLACK]"

text \<open>
  A run of \<open>n\<close> cells holding \<open>v\<close>, all inside the block, from \<open>sq\<close> in steps of
  \<open>d\<close>: what a ray scan has read when it has taken \<open>n\<close> steps.
\<close>

definition opp_run :: "board \<Rightarrow> int \<Rightarrow> int \<Rightarrow> int \<Rightarrow> nat \<Rightarrow> bool" where
  "opp_run b sq d v n \<longleftrightarrow>
     (\<forall>j < n. 0 \<le> sq + int j * d \<and> sq + int j * d < int (length b)
              \<and> b ! nat (sq + int j * d) = v)"

text \<open>
  The colour swap of the symmetry law: every BLACK cell turned WHITE and every WHITE
  cell turned BLACK.
\<close>

definition swap_cell :: "int \<Rightarrow> int" where
  "swap_cell v = (if v = BLACK then WHITE else if v = WHITE then BLACK else v)"

definition swap_colours :: "board \<Rightarrow> board" where
  "swap_colours b = map swap_cell b"

text \<open>
  The loop equations are unconditional and recursive: they are unfolded by hand.
\<close>

declare legalp_loop.simps [simp del]
declare legal_moves_loop.simps [simp del]
declare num_valid_moves_loop.simps [simp del]
declare make_move_loop.simps [simp del]
declare count_loop.simps [simp del]
declare game_stage_loop.simps [simp del]
declare evaluate_loop.simps [simp del]

text \<open>
  \<open>flips_only p b b'\<close>: the board \<open>b'\<close> differs from \<open>b\<close> only in cells that held
  the opponent of \<open>p\<close> and now hold \<open>p\<close>. \<open>cnt v b\<close> is the number of cells 1 to 88
  holding \<open>v\<close>, the value \<open>count\<close> computes.
\<close>

definition flips_only :: "int \<Rightarrow> board \<Rightarrow> board \<Rightarrow> bool" where
  "flips_only p b b' \<longleftrightarrow>
     length b' = length b
     \<and> (\<forall>i < length b. b' ! i = b ! i \<or> (b ! i = opponent p \<and> b' ! i = p))"

definition cnt :: "int \<Rightarrow> board \<Rightarrow> int" where
  "cnt v b = (\<Sum>i = 1..88. if b ! i = v then 1 else 0)"

text \<open>\<open>occupied_board\<close> after \<open>make_move(22, BLACK)\<close>.\<close>

definition occupied_board_after :: board where
  "occupied_board_after = occupied_board[23 := BLACK, 32 := BLACK]"

section \<open>Move strings: encoding and decoding\<close>

lemma sdiv_nonneg: "0 \<le> a \<Longrightarrow> 0 \<le> b \<Longrightarrow> (a::int) sdiv b = a div b"
  by (simp add: signed_divide_int_def sgn_if)

lemma interior_decomp:
  fixes loc :: int
  assumes "1 \<le> loc sdiv 10" "loc sdiv 10 \<le> 8" "1 \<le> loc smod 10" "loc smod 10 \<le> 8"
  shows "0 \<le> loc" "loc sdiv 10 = loc div 10" "loc smod 10 = loc mod 10"
proof -
  show nn: "0 \<le> loc"
  proof (rule ccontr)
    assume "\<not> 0 \<le> loc"
    then have "loc smod 10 \<le> 0" using smod_int_compares(4)[of loc 10] by simp
    with assms show False by simp
  qed
  show "loc sdiv 10 = loc div 10" using nn by (simp add: sdiv_nonneg)
  show "loc smod 10 = loc mod 10" using nn by (simp add: smod_mod_positive)
qed

lemma new_loc_eq:
  fixes loc :: int
  assumes "1 \<le> loc div 10" "loc div 10 \<le> 8" "1 \<le> loc mod 10" "loc mod 10 \<le> 8"
  shows "loc - (9 + 2 * (loc div 10)) = 8 * (loc div 10 - 1) + (loc mod 10 - 1)"
  by presburger

lemma schar_digit: "0 \<le> n \<Longrightarrow> n \<le> 7 \<Longrightarrow> schar (char_of (n + 48)) = n + 48"
  by (simp add: schar_def)

lemma get_move_string_11: "get_move_string 11 = [CHR ''0'', CHR ''0'', CHR 0x0A, CHR 0x00]"
  by code_simp

text \<open>
  C10. For an interior cell \<open>loc\<close> (row component \<open>loc / 10\<close> and column component
  \<open>loc % 10\<close> both in 1..8), \<open>get_move_string\<close> writes the digit of the 0-based row,
  the digit of the 0-based column, a newline and the terminating NUL, and \<open>get_loc\<close>
  reads \<open>loc\<close> back from that buffer; the cell 11 is written as \<open>00\<close>.
\<close>

theorem get_loc_get_move_string:
  fixes loc :: int
  assumes "1 \<le> loc sdiv 10" "loc sdiv 10 \<le> 8" "1 \<le> loc smod 10" "loc smod 10 \<le> 8"
  shows "get_loc (get_move_string loc) = ok loc
       \<and> get_move_string loc =
           [char_of (48 + (loc sdiv 10 - 1)), char_of (48 + (loc smod 10 - 1)), CHR 0x0A, CHR 0x00]
       \<and> 0 \<le> loc sdiv 10 - 1 \<and> loc sdiv 10 - 1 \<le> 7
       \<and> 0 \<le> loc smod 10 - 1 \<and> loc smod 10 - 1 \<le> 7
       \<and> get_move_string 11 = [CHR ''0'', CHR ''0'', CHR 0x0A, CHR 0x00]"
proof -
  note d = interior_decomp[OF assms]
  define r where "r = loc div 10 - 1"
  define c where "c = loc mod 10 - 1"
  have rc: "0 \<le> r" "r \<le> 7" "0 \<le> c" "c \<le> 7"
    using assms d by (simp_all add: r_def c_def)
  have nl: "loc - (9 + 2 * (loc sdiv 10)) = 8 * r + c"
    using new_loc_eq[of loc] assms d by (simp add: r_def c_def)
  have nn: "0 \<le> 8 * r + c" using rc by simp
  have row: "(8 * r + c) sdiv 8 = r" using rc nn by (simp add: sdiv_nonneg)
  have col: "(8 * r + c) smod 8 = c" using rc nn by (simp add: smod_mod_positive)
  have ms: "get_move_string loc = [char_of (r + 48), char_of (c + 48), CHR 0x0A, CHR 0x00]"
    by (simp add: get_move_string_def nl row col Let_def)
  have loc: "loc = 10 * (r + 1) + c + 1" by (simp add: r_def c_def)
  have "get_loc [char_of (r + 48), char_of (c + 48), CHR 0x0A, CHR 0x00]
        = ok (10 * (r + 1) + c + 1)"
    using rc by (simp add: get_loc_def schar_digit Let_def)
  then have decoded: "get_loc (get_move_string loc) = ok loc"
    unfolding ms loc[symmetric] .
  have shape: "get_move_string loc =
      [char_of (48 + (loc sdiv 10 - 1)), char_of (48 + (loc smod 10 - 1)), CHR 0x0A, CHR 0x00]"
    using d by (simp add: ms r_def c_def add.commute)
  show ?thesis using decoded shape rc d get_move_string_11 by (simp add: r_def c_def)
qed

theorem get_loc_get_move_string_witness:
  "(1::int) \<le> 34 sdiv 10 \<and> (34::int) sdiv 10 \<le> 8 \<and> (1::int) \<le> 34 smod 10 \<and> (34::int) smod 10 \<le> 8
   \<and> get_loc (get_move_string 34) = ok 34"
proof -
  have h: "(1::int) \<le> 34 sdiv 10" "(34::int) sdiv 10 \<le> 8" "(1::int) \<le> 34 smod 10"
    "(34::int) smod 10 \<le> 8"
    by simp_all
  from get_loc_get_move_string[OF h] have "get_loc (get_move_string 34) = ok 34"
    by (rule conjunct1)
  with h show ?thesis by simp
qed

section \<open>Ray scans\<close>

lemma validp_iff: "validp m \<longleftrightarrow> 11 \<le> m \<and> m \<le> 88 \<and> 1 \<le> m mod 10 \<and> m mod 10 \<le> 8"
  by (auto simp: validp_def smod_mod_positive)

lemma opponent_not_OUTER: "opponent p \<noteq> 3"
  by (simp add: opponent_def)

lemma dir_bounds: "d \<in> set ALLDIRECTIONS \<Longrightarrow> d \<noteq> 0 \<and> -11 \<le> d \<and> d \<le> 11"
  by (auto simp: ALLDIRECTIONS_def)

lemma sentinel_length: "sentinel_border b \<Longrightarrow> length b = 100"
  by (simp add: sentinel_border_def)

lemma sentinel_cell:
  assumes "sentinel_border b" "0 \<le> sq" "sq < 100" "b ! nat sq \<noteq> 3"
  shows "validp sq"
proof (rule ccontr)
  assume "\<not> validp sq"
  moreover have "nat sq \<in> set [0 ..< 100]" using assms by simp
  moreover have "int (nat sq) = sq" using assms by simp
  ultimately have "b ! nat sq = 3"
    using assms(1) unfolding sentinel_border_def by metis
  with assms show False by simp
qed

lemma step_in_range:
  "validp sq \<Longrightarrow> d \<in> set ALLDIRECTIONS \<Longrightarrow> 0 \<le> sq + d \<and> sq + d < 100"
  using dir_bounds[of d] by (simp add: validp_iff)

lemma opp_run_0: "opp_run b sq d v 0"
  by (simp add: opp_run_def)

lemma opp_run_Suc:
  "opp_run b sq d v (Suc n) \<longleftrightarrow>
     0 \<le> sq \<and> sq < int (length b) \<and> b ! nat sq = v \<and> opp_run b (sq + d) d v n"
proof
  assume r: "opp_run b sq d v (Suc n)"
  have "0 \<le> sq \<and> sq < int (length b) \<and> b ! nat sq = v"
    using r[unfolded opp_run_def, rule_format, of 0] by simp
  moreover have "opp_run b (sq + d) d v n"
    unfolding opp_run_def
  proof (intro allI impI)
    fix j assume "j < n"
    then have "Suc j < Suc n" by simp
    from r[unfolded opp_run_def, rule_format, OF this]
    show "0 \<le> sq + d + int j * d \<and> sq + d + int j * d < int (length b) \<and> b ! nat (sq + d + int j * d) = v"
      by (simp add: algebra_simps)
  qed
  ultimately show "0 \<le> sq \<and> sq < int (length b) \<and> b ! nat sq = v \<and> opp_run b (sq + d) d v n" by simp
next
  assume a: "0 \<le> sq \<and> sq < int (length b) \<and> b ! nat sq = v \<and> opp_run b (sq + d) d v n"
  show "opp_run b sq d v (Suc n)"
    unfolding opp_run_def
  proof (intro allI impI)
    fix j assume j: "j < Suc n"
    show "0 \<le> sq + int j * d \<and> sq + int j * d < int (length b) \<and> b ! nat (sq + int j * d) = v"
    proof (cases j)
      case 0 then show ?thesis using a by simp
    next
      case (Suc k)
      then have "k < n" using j by simp
      with a have "0 \<le> sq + d + int k * d \<and> sq + d + int k * d < int (length b) \<and> b ! nat (sq + d + int k * d) = v"
        unfolding opp_run_def by blast
      then show ?thesis using Suc by (simp add: algebra_simps)
    qed
  qed
qed

lemma find_bracket_piece_run:
  assumes "opp_run b sq d (opponent p) n"
    and "0 \<le> sq + int n * d" "sq + int n * d < int (length b)"
    and "b ! nat (sq + int n * d) \<noteq> opponent p"
  shows "find_bracket_piece b sq d p
         = ok (if b ! nat (sq + int n * d) = p then sq + int n * d else 0)"
  using assms
proof (induction n arbitrary: sq)
  case 0
  then show ?case by (subst find_bracket_piece.simps) simp
next
  case (Suc n)
  from Suc.prems(1) have h: "0 \<le> sq" "sq < int (length b)" "b ! nat sq = opponent p"
    "opp_run b (sq + d) d (opponent p) n"
    by (simp_all add: opp_run_Suc)
  have e: "sq + d + int n * d = sq + int (Suc n) * d" by (simp add: algebra_simps)
  have "find_bracket_piece b (sq + d) d p
         = ok (if b ! nat (sq + d + int n * d) = p then sq + d + int n * d else 0)"
    using Suc.IH[OF h(4)] Suc.prems(2-4) unfolding e by simp
  then show ?case
    unfolding e using h by (subst find_bracket_piece.simps) simp
qed

lemma run_exists:
  assumes sb: "sentinel_border b" and d: "d \<in> set ALLDIRECTIONS" and v: "v \<noteq> 3"
  shows "0 \<le> sq \<Longrightarrow> sq < 100 \<Longrightarrow>
         \<exists>n. opp_run b sq d v n \<and> 0 \<le> sq + int n * d \<and> sq + int n * d < 100
              \<and> b ! nat (sq + int n * d) \<noteq> v"
proof (induction "if d > 0 then nat (100 - sq) else nat sq" arbitrary: sq rule: less_induct)
  case less
  show ?case
  proof (cases "b ! nat sq = v")
    case False
    then have "opp_run b sq d v 0 \<and> 0 \<le> sq + int 0 * d \<and> sq + int 0 * d < 100 \<and> b ! nat (sq + int 0 * d) \<noteq> v"
      using less.prems by (simp add: opp_run_0)
    then show ?thesis by blast
  next
    case True
    then have "validp sq" using sentinel_cell[OF sb less.prems] v by simp
    then have r: "0 \<le> sq + d" "sq + d < 100" using step_in_range[OF _ d] by simp_all
    have "(if d > 0 then nat (100 - (sq + d)) else nat (sq + d)) < (if d > 0 then nat (100 - sq) else nat sq)"
      using dir_bounds[OF d] less.prems r by auto
    from less.hyps[OF this r] obtain n where n: "opp_run b (sq + d) d v n"
      "0 \<le> sq + d + int n * d" "sq + d + int n * d < 100" "b ! nat (sq + d + int n * d) \<noteq> v"
      by blast
    have e: "sq + d + int n * d = sq + int (Suc n) * d" by (simp add: algebra_simps)
    have "opp_run b sq d v (Suc n)"
      using n(1) True less.prems sentinel_length[OF sb] by (simp add: opp_run_Suc)
    then show ?thesis using n(2-4) unfolding e by blast
  qed
qed

lemma would_flip_run:
  assumes "opp_run b (m + d) d (opponent p) n"
    and "0 \<le> m + d + int n * d" "m + d + int n * d < int (length b)"
    and "b ! nat (m + d + int n * d) \<noteq> opponent p"
  shows "would_flip b m d p
         = ok (if n \<noteq> 0 \<and> b ! nat (m + d + int n * d) = p then m + d + int n * d else 0)"
proof (cases n)
  case 0
  then show ?thesis using assms by (simp add: would_flip_def rd_def)
next
  case (Suc k)
  with assms(1) have h: "0 \<le> m + d" "m + d < int (length b)" "b ! nat (m + d) = opponent p"
    "opp_run b (m + d + d) d (opponent p) k"
    by (simp_all add: opp_run_Suc)
  have e: "m + d + d + int k * d = m + d + int n * d" using Suc by (simp add: algebra_simps)
  have "find_bracket_piece b (m + d + d) d p
        = ok (if b ! nat (m + d + int n * d) = p then m + d + int n * d else 0)"
    using find_bracket_piece_run[OF h(4)] assms(2-4) unfolding e by simp
  then show ?thesis using h Suc by (simp add: would_flip_def rd_def)
qed

text \<open>
  C9. On a 100-cell board whose non-interior cells are all \<open>OUTER\<close>, for a player
  BLACK or WHITE, an interior move \<open>m\<close> and a direction \<open>d\<close> of \<open>ALLDIRECTIONS\<close>,
  \<open>would_flip\<close> returns: the scan reads \<open>n\<close> opponent cells from \<open>m + d\<close> on, all
  at indices inside 0..99, and stops at a cell inside 0..99 that does not hold the
  opponent; \<open>find_bracket_piece\<close>, called when \<open>n\<close> is not 0, returns the same result.
\<close>

theorem ray_scan_stays_in_bounds:
  assumes "sentinel_border b" and "player = BLACK \<or> player = WHITE"
    and "validp m" and "d \<in> set ALLDIRECTIONS"
  shows "\<exists>n r. would_flip b m d player = ok r
           \<and> opp_run b (m + d) d (opponent player) n
           \<and> 0 \<le> m + d + int n * d \<and> m + d + int n * d < 100
           \<and> b ! nat (m + d + int n * d) \<noteq> opponent player
           \<and> (n \<noteq> 0 \<longrightarrow> find_bracket_piece b (m + d + d) d player = ok r)"
proof -
  have r: "0 \<le> m + d" "m + d < 100" using step_in_range[OF assms(3,4)] by simp_all
  from run_exists[OF assms(1,4) opponent_not_OUTER r, of player]
  obtain n where n: "opp_run b (m + d) d (opponent player) n"
    "0 \<le> m + d + int n * d" "m + d + int n * d < 100"
    "b ! nat (m + d + int n * d) \<noteq> opponent player"
    by blast
  have len: "length b = 100" using assms(1) by (rule sentinel_length)
  define r where "r = (if n \<noteq> 0 \<and> b ! nat (m + d + int n * d) = player then m + d + int n * d else 0)"
  have wf: "would_flip b m d player = ok r"
    using would_flip_run[OF n(1,2) _ n(4)] n(3) len by (simp add: r_def)
  have "find_bracket_piece b (m + d + d) d player = ok r" if "n \<noteq> 0"
  proof -
    from that obtain k where k: "n = Suc k" by (cases n) auto
    with n(1) have run: "opp_run b (m + d + d) d (opponent player) k"
      by (simp add: opp_run_Suc)
    have e: "m + d + d + int k * d = m + d + int n * d" using k by (simp add: algebra_simps)
    show ?thesis
      using find_bracket_piece_run[OF run] n(2-4) len that unfolding e by (simp add: r_def)
  qed
  with wf n show ?thesis by blast
qed

lemma sentinel_initialise_board: "sentinel_border initialise_board"
  by code_simp

theorem ray_scan_stays_in_bounds_witness:
  "sentinel_border initialise_board \<and> validp 34 \<and> 10 \<in> set ALLDIRECTIONS
   \<and> (\<exists>n r. would_flip initialise_board 34 10 BLACK = ok r
           \<and> opp_run initialise_board (34 + 10) 10 (opponent BLACK) n
           \<and> 0 \<le> 34 + 10 + int n * 10 \<and> 34 + 10 + int n * 10 < 100
           \<and> initialise_board ! nat (34 + 10 + int n * 10) \<noteq> opponent BLACK
           \<and> (n \<noteq> 0 \<longrightarrow> find_bracket_piece initialise_board (34 + 10 + 10) 10 BLACK = ok r))"
proof -
  have h1: "sentinel_border initialise_board" by code_simp
  have h2: "BLACK = BLACK \<or> BLACK = WHITE" by simp
  have h3: "validp 34" by code_simp
  have h4: "10 \<in> set ALLDIRECTIONS" by code_simp
  show ?thesis using h1 h3 h4 ray_scan_stays_in_bounds[OF h1 h2 h3 h4] by blast
qed

section \<open>The move engine returns on boards with a sentinel border\<close>

lemma dir_nth: "j < 8 \<Longrightarrow> ALLDIRECTIONS ! j \<in> set ALLDIRECTIONS"
  by (rule nth_mem) (simp add: ALLDIRECTIONS_def)

lemma would_flip_total:
  assumes "sentinel_border b" "validp m" "d \<in> set ALLDIRECTIONS"
  shows "\<exists>r. would_flip b m d p = ok r"
proof -
  have r: "0 \<le> m + d" "m + d < 100" using step_in_range[OF assms(2,3)] by simp_all
  from run_exists[OF assms(1,3) opponent_not_OUTER r, of p]
  obtain n where n: "opp_run b (m + d) d (opponent p) n"
    "0 \<le> m + d + int n * d" "m + d + int n * d < 100"
    "b ! nat (m + d + int n * d) \<noteq> opponent p"
    by blast
  have len: "length b = 100" using assms(1) by (rule sentinel_length)
  show ?thesis using would_flip_run[OF n(1,2) _ n(4)] n(3) len by simp
qed

lemma legalp_loop_char:
  assumes sb: "sentinel_border b" and m: "validp m"
  shows "i \<le> 8 \<Longrightarrow>
         \<exists>k. legalp_loop b m p i = ok k \<and> i \<le> k \<and> k \<le> 8
            \<and> (\<forall>j. i \<le> j \<and> j < k \<longrightarrow> would_flip b m (ALLDIRECTIONS ! j) p = ok 0)
            \<and> (k < 8 \<longrightarrow> would_flip b m (ALLDIRECTIONS ! k) p \<noteq> ok 0)"
proof (induction "8 - i" arbitrary: i)
  case 0
  then have "i = 8" by simp
  then show ?case by (auto simp add: legalp_loop.simps)
next
  case (Suc n)
  then have i: "i \<le> 7" by simp
  from would_flip_total[OF sb m dir_nth, of i p] i
  obtain r where r: "would_flip b m (ALLDIRECTIONS ! i) p = ok r" by auto
  show ?case
  proof (cases "r = 0")
    case False
    then have "legalp_loop b m p i = ok i" using i r by (simp add: legalp_loop.simps)
    then show ?thesis using i r False by auto
  next
    case True
    have "n = 8 - (i + 1)" using Suc.hyps(2) by simp
    from Suc.hyps(1)[OF this] i obtain k where k: "legalp_loop b m p (i + 1) = ok k"
      "i + 1 \<le> k" "k \<le> 8"
      "\<forall>j. i + 1 \<le> j \<and> j < k \<longrightarrow> would_flip b m (ALLDIRECTIONS ! j) p = ok 0"
      "k < 8 \<longrightarrow> would_flip b m (ALLDIRECTIONS ! k) p \<noteq> ok 0"
      by auto
    have "legalp_loop b m p i = ok k" using i r True k(1) by (simp add: legalp_loop.simps)
    moreover have "\<forall>j. i \<le> j \<and> j < k \<longrightarrow> would_flip b m (ALLDIRECTIONS ! j) p = ok 0"
    proof (intro allI impI)
      fix j assume j: "i \<le> j \<and> j < k"
      show "would_flip b m (ALLDIRECTIONS ! j) p = ok 0"
      proof (cases "j = i")
        case True then show ?thesis using r \<open>r = 0\<close> by simp
      next
        case False then show ?thesis using j k(4) by simp
      qed
    qed
    ultimately show ?thesis using k(2,3,5) by auto
  qed
qed

lemma validp_range: "validp m \<Longrightarrow> 0 \<le> m \<and> m < 100"
  by (simp add: validp_iff)

lemma legalp_char:
  assumes sb: "sentinel_border b" and m: "validp m"
  shows "legalp b m p
         = ok (b ! nat m = EMPTY \<and> (\<exists>j<8. would_flip b m (ALLDIRECTIONS ! j) p \<noteq> ok 0))"
proof -
  from legalp_loop_char[OF sb m, of 0 p]
  obtain k where k: "legalp_loop b m p 0 = ok k" "k \<le> 8"
    "\<forall>j. j < k \<longrightarrow> would_flip b m (ALLDIRECTIONS ! j) p = ok 0"
    "k < 8 \<longrightarrow> would_flip b m (ALLDIRECTIONS ! k) p \<noteq> ok 0"
    by auto
  have e: "(k \<noteq> 8) = (\<exists>j<8. would_flip b m (ALLDIRECTIONS ! j) p \<noteq> ok 0)"
  proof
    assume "k \<noteq> 8"
    then have "k < 8" using k(2) by simp
    with k(4) show "\<exists>j<8. would_flip b m (ALLDIRECTIONS ! j) p \<noteq> ok 0" by blast
  next
    assume "\<exists>j<8. would_flip b m (ALLDIRECTIONS ! j) p \<noteq> ok 0"
    then show "k \<noteq> 8" using k(3) by blast
  qed
  have rd: "rd b m = ok (b ! nat m)"
    using validp_range[OF m] sentinel_length[OF sb] by (simp add: rd_def)
  show ?thesis
  proof (cases "b ! nat m = EMPTY")
    case True
    then have "legalp b m p = ok (k \<noteq> 8)" using m by (simp add: legalp_def rd k(1))
    then show ?thesis using True by (simp only: e simp_thms)
  next
    case False
    then show ?thesis using m by (simp add: legalp_def rd)
  qed
qed

lemma legalp_total:
  assumes sb: "sentinel_border b"
  shows "\<exists>l. legalp b m p = ok l"
proof (cases "validp m")
  case True
  then show ?thesis using legalp_char[OF sb True] by simp
next
  case False
  then have "legalp b m p = ok False" by (simp add: legalp_def)
  then show ?thesis by blast
qed

lemma num_valid_moves_loop_total:
  assumes sb: "sentinel_border b"
  shows "\<exists>n. num_valid_moves_loop b p m i = ok n"
proof (induction "nat (89 - m)" arbitrary: m i rule: less_induct)
  case less
  show ?case
  proof (cases "m \<le> 88")
    case False
    then show ?thesis by (simp add: num_valid_moves_loop.simps)
  next
    case True
    from legalp_total[OF sb, of m p] obtain l where l: "legalp b m p = ok l" by blast
    have "nat (89 - (m + 1)) < nat (89 - m)" using True by simp
    from less.hyps[OF this] obtain n where
      "num_valid_moves_loop b p (m + 1) (if l then i + 1 else i) = ok n" by blast
    then show ?thesis using True l by (subst num_valid_moves_loop.simps) simp
  qed
qed

lemma num_valid_moves_total:
  "sentinel_border g \<Longrightarrow> \<exists>n. num_valid_moves g p b = ok n"
  by (simp add: num_valid_moves_def num_valid_moves_loop_total)

lemma game_stage_loop_total:
  assumes len: "length g = 100"
  shows "0 \<le> i \<Longrightarrow> \<exists>pc'. game_stage_loop g mc opp i pc = ok pc'"
proof (induction "nat (89 - i)" arbitrary: i pc rule: less_induct)
  case less
  show ?case
  proof (cases "i \<le> 88")
    case False
    then show ?thesis by (simp add: game_stage_loop.simps)
  next
    case True
    have rd: "rd g i = ok (g ! nat i)" using True less.prems len by (simp add: rd_def)
    have "nat (89 - (i + 1)) < nat (89 - i)" "0 \<le> i + 1" using True less.prems by simp_all
    from less.hyps[OF this] obtain pc' where
      "game_stage_loop g mc opp (i + 1)
         (if g ! nat i = mc then (fst pc + 1, snd pc)
          else if g ! nat i = opp then (fst pc, snd pc + 1) else pc) = ok pc'" by blast
    then show ?thesis using True rd by (subst game_stage_loop.simps) simp
  qed
qed

lemma game_stage_total: "length g = 100 \<Longrightarrow> \<exists>st. game_stage g mc = ok st"
proof -
  assume "length g = 100"
  from game_stage_loop_total[OF this, of 1 mc "opponent mc" "(0, 0)"]
  obtain pc' where "game_stage_loop g mc (opponent mc) 1 (0, 0) = ok pc'" by auto
  then show ?thesis by (cases pc') (simp add: game_stage_def Let_def)
qed

section \<open>Colour symmetry of the evaluator\<close>

lemma rd_in: "0 \<le> i \<Longrightarrow> i < int (length b) \<Longrightarrow> rd b i = ok (b ! nat i)"
  by (simp add: rd_def)

lemma rd_out: "\<not> (0 \<le> i \<and> i < int (length b)) \<Longrightarrow> rd b i = fail OutOfBounds"
  by (simp add: rd_def)

lemma rd_swap_in:
  "0 \<le> i \<Longrightarrow> i < int (length b) \<Longrightarrow> rd (swap_colours b) i = ok (swap_cell (b ! nat i))"
  by (simp add: rd_def swap_colours_def nat_less_iff)

lemma rd_swap_out:
  "\<not> (0 \<le> i \<and> i < int (length b)) \<Longrightarrow> rd (swap_colours b) i = fail OutOfBounds"
  by (simp add: rd_def swap_colours_def)

lemma swap_cell_eq:
  assumes "P = BLACK \<or> P = WHITE"
  shows "swap_cell v = opponent P \<longleftrightarrow> v = P" "swap_cell v = P \<longleftrightarrow> v = opponent P"
    "opponent (opponent P) = P" "swap_cell v = 46 \<longleftrightarrow> v = 46"
  using assms by (auto simp: swap_cell_def opponent_def)

lemma evaluate_loop_swap:
  assumes P: "P = BLACK \<or> P = WHITE"
  shows "evaluate_loop (opponent P) P (swap_colours b) i acc = evaluate_loop P (opponent P) b i acc"
proof (induction "nat (89 - i)" arbitrary: i acc rule: less_induct)
  case less
  show ?case
  proof (cases "i \<le> 88")
    case False
    then show ?thesis by (simp add: evaluate_loop.simps)
  next
    case True
    have m: "nat (89 - (i + 1)) < nat (89 - i)" using True by simp
    show ?thesis
    proof (cases "0 \<le> i \<and> i < int (length b)")
      case False
      then show ?thesis
        by (subst evaluate_loop.simps, subst (2) evaluate_loop.simps)
          (simp add: rd_swap_out rd_out)
    next
      case True
      then show ?thesis
        by (subst evaluate_loop.simps, subst (2) evaluate_loop.simps)
          (simp add: rd_swap_in rd_in swap_cell_eq[OF P] less.hyps[OF m] split: prod.splits)
    qed
  qed
qed

lemma tally_swap:
  assumes P: "P = BLACK \<or> P = WHITE"
  shows "tally (swap_colours b) (opponent P) P pc k = tally b P (opponent P) pc k"
proof (cases "0 \<le> k \<and> k < int (length b)")
  case False
  then show ?thesis by (simp add: tally_def rd_swap_out rd_out)
next
  case True
  then show ?thesis by (simp add: tally_def rd_swap_in rd_in swap_cell_eq[OF P])
qed

lemma tally_all_swap:
  assumes P: "P = BLACK \<or> P = WHITE"
  shows "tally_all (swap_colours b) (opponent P) P pc ks = tally_all b P (opponent P) pc ks"
  by (induction ks arbitrary: pc)
    (simp_all add: tally_swap[OF P] cong: option.case_cong sum.case_cong)

lemma closeness_at_swap:
  assumes P: "P = BLACK \<or> P = WHITE"
  shows "closeness_at (swap_colours b) (opponent P) P pc corner adj
         = closeness_at b P (opponent P) pc corner adj"
proof (cases "0 \<le> corner \<and> corner < int (length b)")
  case False
  then show ?thesis by (simp add: closeness_at_def rd_swap_out rd_out)
next
  case True
  then show ?thesis
    by (simp add: closeness_at_def rd_swap_in rd_in swap_cell_eq[OF P] tally_all_swap[OF P])
qed

text \<open>
  C8. For every board \<open>B\<close> and player \<open>P\<close> in BLACK, WHITE,
  \<open>evaluate(opponent(P), swap(B))\<close> equals \<open>evaluate(P, B)\<close>, also when one of the
  calls divides by zero (then both do). \<open>evaluate\<close> reads the global board and the
  global \<open>my_colour\<close> besides its arguments; the equation holds whatever boards with a
  sentinel border \<open>g\<close>, \<open>g'\<close> and colours \<open>mc\<close>, \<open>mc'\<close> the globals hold during
  the two calls.
\<close>

theorem evaluate_colour_symmetry:
  assumes g: "sentinel_border g" and g': "sentinel_border g'"
    and P: "P = BLACK \<or> P = WHITE"
  shows "evaluate g' mc' (opponent P) (swap_colours B) = evaluate g mc P B"
proof -
  from num_valid_moves_total[OF g, of P B] obtain n where
    n: "num_valid_moves g P B = ok n" by blast
  from num_valid_moves_total[OF g', of "opponent P" "swap_colours B"] obtain n' where
    n': "num_valid_moves g' (opponent P) (swap_colours B) = ok n'" by blast
  from game_stage_total[OF sentinel_length[OF g], of mc] obtain st where
    st: "game_stage g mc = ok st" by blast
  from game_stage_total[OF sentinel_length[OF g'], of mc'] obtain st' where
    st': "game_stage g' mc' = ok st'" by blast
  have "evaluate_terms g' mc' (opponent P) (swap_colours B) = evaluate_terms g mc P B"
    unfolding evaluate_terms_def Let_def
    by (simp add: n n' st st' swap_cell_eq[OF P] evaluate_loop_swap[OF P] tally_all_swap[OF P] tally_swap[OF P]
        closeness_at_swap[OF P] cong: option.case_cong sum.case_cong)
  then show ?thesis by (simp add: evaluate_def)
qed

lemma sentinel_search_board: "sentinel_border search_board"
  by code_simp

theorem evaluate_colour_symmetry_witness:
  "sentinel_border search_board \<and> (BLACK = BLACK \<or> BLACK = WHITE)
   \<and> evaluate search_board BLACK (opponent BLACK) (swap_colours search_board)
       = evaluate search_board BLACK BLACK search_board
   \<and> evaluate search_board BLACK BLACK search_board = ok 435"
proof -
  have h: "sentinel_border search_board" by (rule sentinel_search_board)
  have P: "BLACK = BLACK \<or> BLACK = WHITE" by simp
  have v: "evaluate search_board BLACK BLACK search_board = ok 435" by code_simp
  show ?thesis
    using h v evaluate_colour_symmetry[OF h h P, of BLACK search_board BLACK] by simp
qed

section \<open>Flips\<close>

lemma flips_only_refl: "flips_only p b b"
  by (simp add: flips_only_def)

lemma flips_only_trans:
  "flips_only p b b' \<Longrightarrow> flips_only p b' b'' \<Longrightarrow> flips_only p b b''"
  unfolding flips_only_def by (metis)

lemma flips_only_sentinel:
  assumes "sentinel_border b" "flips_only p b b'"
  shows "sentinel_border b'"
  unfolding sentinel_border_def
proof (intro conjI ballI impI)
  show "length b' = 100" using assms by (simp add: flips_only_def sentinel_border_def)
next
  fix i assume i: "i \<in> set [0 ..< 100]" "\<not> validp (int i)"
  then have o: "b ! i = 3" using assms(1) by (simp add: sentinel_border_def)
  have "i < length b" using i assms(1) by (simp add: sentinel_border_def)
  then have "b' ! i = b ! i \<or> (b ! i = opponent p \<and> b' ! i = p)"
    using assms(2) by (simp add: flips_only_def)
  then show "b' ! i = 3" using o opponent_not_OUTER[of p] by auto
qed

lemma flips_only_keeps:
  "flips_only p b b' \<Longrightarrow> i < length b \<Longrightarrow> b ! i = p \<Longrightarrow> b' ! i = p"
  unfolding flips_only_def by metis

lemma step_neq: "d \<noteq> 0 \<Longrightarrow> c + int (Suc j) * d \<noteq> (c::int)"
  by simp

lemma opp_run_update:
  assumes "opp_run b (c + d) d v n" "d \<noteq> 0" "0 \<le> c"
  shows "opp_run (b[nat c := x]) (c + d) d v n"
  unfolding opp_run_def
proof (intro allI impI)
  fix j assume j: "j < n"
  from assms(1)[unfolded opp_run_def, rule_format, OF j]
  have h: "0 \<le> c + d + int j * d" "c + d + int j * d < int (length b)"
    "b ! nat (c + d + int j * d) = v" by simp_all
  have "c + d + int j * d \<noteq> c" using step_neq[OF assms(2), of c j] by (simp add: algebra_simps)
  then have "nat (c + d + int j * d) \<noteq> nat c" using h(1) assms(3) by simp
  then show "0 \<le> c + d + int j * d \<and> c + d + int j * d < int (length (b[nat c := x]))
             \<and> b[nat c := x] ! nat (c + d + int j * d) = v"
    using h by simp
qed

lemma make_flips_loop_run:
  assumes d: "d \<noteq> 0"
  shows "opp_run b c d v (Suc k) \<Longrightarrow>
         \<exists>b'. make_flips_loop b c d (c + int (Suc k) * d) p = ok b'
             \<and> length b' = length b
             \<and> (\<forall>i < length b. b' ! i = b ! i \<or> (b ! i = v \<and> b' ! i = p))
             \<and> b' ! nat c = p"
proof (induction k arbitrary: b c)
  case 0
  then have h: "0 \<le> c" "c < int (length b)" "b ! nat c = v" by (simp_all add: opp_run_Suc)
  have "make_flips_loop b c d (c + int (Suc 0) * d) p = ok (b[nat c := p])"
    using h by (subst make_flips_loop.simps) simp
  moreover have "\<forall>i < length b. b[nat c := p] ! i = b ! i \<or> (b ! i = v \<and> b[nat c := p] ! i = p)"
    using h by (auto simp: nth_list_update)
  moreover have "b[nat c := p] ! nat c = p" using h by simp
  ultimately show ?case by simp
next
  case (Suc k)
  from Suc.prems have h: "0 \<le> c" "c < int (length b)" "b ! nat c = v"
    "opp_run b (c + d) d v (Suc k)"
    by (simp_all add: opp_run_Suc)
  let ?b1 = "b[nat c := p]"
  have run1: "opp_run ?b1 (c + d) d v (Suc k)" using opp_run_update[OF h(4) d h(1)] .
  from Suc.IH[OF run1] obtain b' where b':
    "make_flips_loop ?b1 (c + d) d (c + d + int (Suc k) * d) p = ok b'"
    "length b' = length ?b1"
    "\<forall>i < length ?b1. b' ! i = ?b1 ! i \<or> (?b1 ! i = v \<and> b' ! i = p)"
    by blast
  have e: "c + d + int (Suc k) * d = c + int (Suc (Suc k)) * d" by (simp add: algebra_simps)
  have ne: "c + d \<noteq> c + int (Suc (Suc k)) * d" using d by simp
  have "make_flips_loop b c d (c + int (Suc (Suc k)) * d) p = ok b'"
    using h ne b'(1) unfolding e by (subst make_flips_loop.simps) simp
  moreover have "length b' = length b" using b'(2) by simp
  moreover have "\<forall>i < length b. b' ! i = b ! i \<or> (b ! i = v \<and> b' ! i = p)"
  proof (intro allI impI)
    fix i assume i: "i < length b"
    with b'(3) have a: "b' ! i = ?b1 ! i \<or> (?b1 ! i = v \<and> b' ! i = p)" by simp
    show "b' ! i = b ! i \<or> (b ! i = v \<and> b' ! i = p)"
    proof (cases "i = nat c")
      case True
      then have "?b1 ! i = p" using i by simp
      with a have "b' ! i = p" by auto
      then show ?thesis using True h(3) by simp
    next
      case False
      then have "?b1 ! i = b ! i" by simp
      with a show ?thesis by simp
    qed
  qed
  moreover have "b' ! nat c = p"
  proof -
    have "nat c < length ?b1" using h by simp
    with b'(3) have "b' ! nat c = ?b1 ! nat c \<or> (?b1 ! nat c = v \<and> b' ! nat c = p)" by blast
    moreover have "?b1 ! nat c = p" using h by simp
    ultimately show ?thesis by auto
  qed
  ultimately show ?case by blast
qed

lemma sentinel_0: "sentinel_border b \<Longrightarrow> b ! 0 = 3"
  by (simp add: sentinel_border_def validp_iff)

lemma make_flips_props:
  assumes sb: "sentinel_border b" and m: "validp m" and d: "d \<in> set ALLDIRECTIONS"
    and P: "p = BLACK \<or> p = WHITE"
  shows "\<exists>b'. make_flips b m d p = ok b' \<and> flips_only p b b'
           \<and> (would_flip b m d p = ok 0 \<longrightarrow> b' = b)
           \<and> (would_flip b m d p \<noteq> ok 0 \<longrightarrow>
                b ! nat (m + d) = opponent p \<and> b' ! nat (m + d) = p)"
proof -
  have r: "0 \<le> m + d" "m + d < 100" using step_in_range[OF m d] by simp_all
  from run_exists[OF sb d opponent_not_OUTER r, of p]
  obtain n where n: "opp_run b (m + d) d (opponent p) n"
    "0 \<le> m + d + int n * d" "m + d + int n * d < 100"
    "b ! nat (m + d + int n * d) \<noteq> opponent p"
    by blast
  have len: "length b = 100" using sb by (rule sentinel_length)
  let ?e = "m + d + int n * d"
  have wf: "would_flip b m d p = ok (if n \<noteq> 0 \<and> b ! nat ?e = p then ?e else 0)"
    using would_flip_run[OF n(1,2) _ n(4)] n(3) len by simp
  show ?thesis
  proof (cases "n \<noteq> 0 \<and> b ! nat ?e = p")
    case False
    then have "would_flip b m d p = ok 0" using wf by auto
    then show ?thesis by (simp add: make_flips_def flips_only_refl)
  next
    case True
    have "?e \<noteq> 0"
    proof
      assume "?e = 0"
      then have "b ! nat ?e = 3" using sentinel_0[OF sb] by simp
      with True P show False by auto
    qed
    then have wf': "would_flip b m d p = ok ?e" "would_flip b m d p \<noteq> ok 0"
      using wf True by simp_all
    from True obtain k where k: "n = Suc k" by (cases n) auto
    have d0: "d \<noteq> 0" using dir_bounds[OF d] by simp
    from make_flips_loop_run[OF d0 n(1)[unfolded k], of p]
    obtain b' where b': "make_flips_loop b (m + d) d (m + d + int (Suc k) * d) p = ok b'"
      "length b' = length b"
      "\<forall>i < length b. b' ! i = b ! i \<or> (b ! i = opponent p \<and> b' ! i = p)"
      "b' ! nat (m + d) = p"
      by blast
    have "make_flips b m d p = ok b'"
      using wf'(1) \<open>?e \<noteq> 0\<close> b'(1) k by (simp add: make_flips_def)
    moreover have "flips_only p b b'" using b'(2,3) by (simp add: flips_only_def)
    moreover have "b ! nat (m + d) = opponent p"
      using n(1) k by (simp add: opp_run_Suc)
    ultimately show ?thesis using wf'(2) b'(4) by blast
  qed
qed

lemma make_move_loop_flips:
  assumes m: "validp m" and P: "p = BLACK \<or> p = WHITE"
  shows "sentinel_border b \<Longrightarrow> i \<le> 8 \<Longrightarrow>
         \<exists>b'. make_move_loop b m p i = ok b' \<and> flips_only p b b'"
proof (induction "8 - i" arbitrary: i b)
  case 0
  then have "i = 8" by simp
  then show ?case by (simp add: make_move_loop.simps flips_only_refl)
next
  case (Suc n)
  then have i: "i \<le> 7" by simp
  from make_flips_props[OF Suc.prems(1) m dir_nth P, of i] i
  obtain b1 where b1: "make_flips b m (ALLDIRECTIONS ! i) p = ok b1" "flips_only p b b1"
    by auto
  have sb1: "sentinel_border b1" using flips_only_sentinel[OF Suc.prems(1) b1(2)] .
  have "n = 8 - (i + 1)" using Suc.hyps(2) by simp
  from Suc.hyps(1)[OF this sb1] i obtain b' where
    b': "make_move_loop b1 m p (i + 1) = ok b'" "flips_only p b1 b'" by auto
  have "make_move_loop b m p i = ok b'"
    using i b1(1) b'(1) by (subst make_move_loop.simps) simp
  then show ?case using flips_only_trans[OF b1(2) b'(2)] by blast
qed

lemma make_move_loop_none:
  assumes sb: "sentinel_border b" and m: "validp m" and P: "p = BLACK \<or> p = WHITE"
  shows "i \<le> 8 \<Longrightarrow> (\<forall>j. i \<le> j \<and> j < 8 \<longrightarrow> would_flip b m (ALLDIRECTIONS ! j) p = ok 0) \<Longrightarrow>
         make_move_loop b m p i = ok b"
proof (induction "8 - i" arbitrary: i)
  case 0
  then have "i = 8" by simp
  then show ?case by (simp add: make_move_loop.simps)
next
  case (Suc n)
  then have i: "i \<le> 7" by simp
  then have w: "would_flip b m (ALLDIRECTIONS ! i) p = ok 0" using Suc.prems(2) by simp
  from make_flips_props[OF sb m dir_nth P, of i] i w
  have f: "make_flips b m (ALLDIRECTIONS ! i) p = ok b" by auto
  have "n = 8 - (i + 1)" using Suc.hyps(2) by simp
  from Suc.hyps(1)[OF this] i Suc.prems(2)
  have "make_move_loop b m p (i + 1) = ok b" by simp
  then show ?case using i f by (subst make_move_loop.simps) simp
qed

lemma make_move_loop_some:
  assumes m: "validp m" and P: "p = BLACK \<or> p = WHITE" and j: "j < 8"
  shows "sentinel_border b \<Longrightarrow> i \<le> j \<Longrightarrow>
         would_flip b m (ALLDIRECTIONS ! j) p \<noteq> ok 0 \<Longrightarrow>
         (\<forall>j'. i \<le> j' \<and> j' < j \<longrightarrow> would_flip b m (ALLDIRECTIONS ! j') p = ok 0) \<Longrightarrow>
         \<exists>b'. make_move_loop b m p i = ok b' \<and> flips_only p b b'
             \<and> b ! nat (m + ALLDIRECTIONS ! j) = opponent p
             \<and> b' ! nat (m + ALLDIRECTIONS ! j) = p"
proof (induction "j - i" arbitrary: i)
  case 0
  then have ij: "i = j" by simp
  from make_flips_props[OF "0.prems"(1) m dir_nth[OF j] P] "0.prems"(3)
  obtain b1 where b1: "make_flips b m (ALLDIRECTIONS ! j) p = ok b1" "flips_only p b b1"
    "b ! nat (m + ALLDIRECTIONS ! j) = opponent p" "b1 ! nat (m + ALLDIRECTIONS ! j) = p"
    by blast
  have sb1: "sentinel_border b1" using flips_only_sentinel[OF "0.prems"(1) b1(2)] .
  from make_move_loop_flips[OF m P sb1, of "j + 1"] j obtain b' where
    b': "make_move_loop b1 m p (j + 1) = ok b'" "flips_only p b1 b'" by auto
  have r: "0 \<le> m + ALLDIRECTIONS ! j" "m + ALLDIRECTIONS ! j < 100"
    using step_in_range[OF m dir_nth[OF j]] by simp_all
  have "nat (m + ALLDIRECTIONS ! j) < length b1"
    using r sentinel_length[OF sb1] by simp
  from flips_only_keeps[OF b'(2) this b1(4)]
  have keep: "b' ! nat (m + ALLDIRECTIONS ! j) = p" .
  have "make_move_loop b m p i = ok b'"
    using j ij b1(1) b'(1) by (subst make_move_loop.simps) simp
  then show ?case using flips_only_trans[OF b1(2) b'(2)] b1(3) keep by blast
next
  case (Suc n)
  then have i: "i < j" by simp
  then have w: "would_flip b m (ALLDIRECTIONS ! i) p = ok 0" using Suc.prems(4) by simp
  have i8: "i < 8" using i j by simp
  from make_flips_props[OF Suc.prems(1) m dir_nth[OF i8] P] w
  have f: "make_flips b m (ALLDIRECTIONS ! i) p = ok b" by auto
  have "n = j - (i + 1)" using Suc.hyps(2) by simp
  from Suc.hyps(1)[OF this Suc.prems(1) _ Suc.prems(3)] i Suc.prems(4)
  obtain b' where b': "make_move_loop b m p (i + 1) = ok b'" "flips_only p b b'"
    "b ! nat (m + ALLDIRECTIONS ! j) = opponent p" "b' ! nat (m + ALLDIRECTIONS ! j) = p"
    by auto
  have "make_move_loop b m p i = ok b'"
    using i8 f b'(1) by (subst make_move_loop.simps) simp
  then show ?case using b'(2-4) by blast
qed

lemma would_flip_update_origin:
  assumes sb: "sentinel_border b" and m: "validp m" and d: "d \<in> set ALLDIRECTIONS"
  shows "would_flip (b[nat m := x]) m d p = would_flip b m d p"
proof -
  have r: "0 \<le> m + d" "m + d < 100" using step_in_range[OF m d] by simp_all
  from run_exists[OF sb d opponent_not_OUTER r, of p]
  obtain n where n: "opp_run b (m + d) d (opponent p) n"
    "0 \<le> m + d + int n * d" "m + d + int n * d < 100"
    "b ! nat (m + d + int n * d) \<noteq> opponent p"
    by blast
  have len: "length b = 100" using sb by (rule sentinel_length)
  have d0: "d \<noteq> 0" using dir_bounds[OF d] by simp
  have m0: "0 \<le> m" using validp_range[OF m] by simp
  let ?b = "b[nat m := x]"
  let ?e = "m + d + int n * d"
  have "?e \<noteq> m" using step_neq[OF d0, of m n] by (simp add: algebra_simps)
  then have "nat ?e \<noteq> nat m" using n(2) m0 by simp
  then have same: "?b ! nat ?e = b ! nat ?e" by simp
  have run: "opp_run ?b (m + d) d (opponent p) n" using opp_run_update[OF n(1) d0 m0] .
  have "would_flip ?b m d p = ok (if n \<noteq> 0 \<and> ?b ! nat ?e = p then ?e else 0)"
    using would_flip_run[OF run n(2)] n(3,4) len same by simp
  moreover have "would_flip b m d p = ok (if n \<noteq> 0 \<and> b ! nat ?e = p then ?e else 0)"
    using would_flip_run[OF n(1,2) _ n(4)] n(3) len by simp
  ultimately show ?thesis using same by simp
qed

section \<open>Piece counts\<close>

lemma count_loop_eq:
  assumes len: "length b = 100"
  shows "0 \<le> i \<Longrightarrow> i \<le> 89 \<Longrightarrow>
         count_loop v b i c = ok (c + (\<Sum>j = nat i..88. if b ! j = v then 1 else 0))"
proof (induction "nat (89 - i)" arbitrary: i c rule: less_induct)
  case less
  show ?case
  proof (cases "i \<le> 88")
    case False
    then have "i = 89" using less.prems by simp
    then show ?thesis by (simp add: count_loop.simps)
  next
    case True
    have rd: "rd b i = ok (b ! nat i)" using True less.prems len by (simp add: rd_def)
    have "nat (89 - (i + 1)) < nat (89 - i)" "0 \<le> i + 1" "i + 1 \<le> 89"
      using True less.prems by simp_all
    from less.hyps[OF this]
    have ih: "count_loop v b (i + 1) c' = ok (c' + (\<Sum>j = nat (i + 1)..88. if b ! j = v then 1 else 0))"
      for c' .
    have n: "nat (i + 1) = Suc (nat i)" using less.prems by simp
    have le: "nat i \<le> 88" using True by simp
    have split: "(\<Sum>j = nat i..88. if b ! j = v then 1 else 0)
                 = (if b ! nat i = v then 1 else 0) + (\<Sum>j = Suc (nat i)..88. if b ! j = v then 1 else (0::int))"
      using le by (rule sum.atLeast_Suc_atMost)
    show ?thesis
      using True rd by (subst count_loop.simps) (simp add: ih n split)
  qed
qed

lemma count_eq: "length b = 100 \<Longrightarrow> count v b = ok (cnt v b)"
  using count_loop_eq[of b 1 v 0] by (simp add: count_def cnt_def)

lemma cnt_update:
  assumes "1 \<le> k" "k \<le> 88" "k < length b"
  shows "cnt v (b[k := x]) = cnt v b - (if b ! k = v then 1 else 0) + (if x = v then 1 else 0)"
proof -
  have k: "k \<in> {1..88}" "finite {1..88::nat}" using assms by simp_all
  have rest: "(\<Sum>i \<in> {1..88} - {k}. if b[k := x] ! i = v then 1 else (0::int))
              = (\<Sum>i \<in> {1..88} - {k}. if b ! i = v then 1 else 0)"
    by (rule sum.cong) simp_all
  have "cnt v (b[k := x]) = (if x = v then 1 else 0)
          + (\<Sum>i \<in> {1..88} - {k}. if b[k := x] ! i = v then 1 else 0)"
    unfolding cnt_def using assms(3) by (subst sum.remove[OF k(2,1)]) simp
  moreover have "cnt v b = (if b ! k = v then 1 else 0)
          + (\<Sum>i \<in> {1..88} - {k}. if b ! i = v then 1 else 0)"
    unfolding cnt_def by (subst sum.remove[OF k(2,1)]) simp
  ultimately show ?thesis using rest by simp
qed

lemma flips_only_cnt_mono:
  assumes "flips_only p b b'" "length b = 100"
  shows "cnt p b \<le> cnt p b'"
  unfolding cnt_def
proof (rule sum_mono)
  fix i :: nat assume "i \<in> {1..88}"
  then have "i < length b" using assms(2) by simp
  then have "b' ! i = b ! i \<or> (b ! i = opponent p \<and> b' ! i = p)"
    using assms(1) by (simp add: flips_only_def)
  then show "(if b ! i = p then 1 else 0) \<le> (if b' ! i = p then 1 else (0::int))" by auto
qed

lemma flips_only_cnt_strict:
  assumes "flips_only p b b'" "length b = 100" "1 \<le> k" "k \<le> 88" "b ! k \<noteq> p" "b' ! k = p"
  shows "cnt p b < cnt p b'"
  unfolding cnt_def
proof (rule sum_strict_mono_ex1)
  show "finite {1..88::nat}" by simp
  show "\<forall>i\<in>{1..88}. (if b ! i = p then 1 else 0) \<le> (if b' ! i = p then 1 else (0::int))"
  proof
    fix i :: nat assume "i \<in> {1..88}"
    then have "i < length b" using assms(2) by simp
    then have "b' ! i = b ! i \<or> (b ! i = opponent p \<and> b' ! i = p)"
      using assms(1) by (simp add: flips_only_def)
    then show "(if b ! i = p then 1 else 0) \<le> (if b' ! i = p then 1 else (0::int))" by auto
  qed
  show "\<exists>i\<in>{1..88}. (if b ! i = p then 1 else 0) < (if b' ! i = p then 1 else (0::int))"
    using assms(3-6) by (intro bexI[of _ k]) simp_all
qed

lemma flips_only_cnt_sum:
  assumes "flips_only p b b'" "length b = 100" "opponent p \<noteq> p"
  shows "cnt p b' + cnt (opponent p) b' = cnt p b + cnt (opponent p) b"
proof -
  have "(\<Sum>i = 1..88. (if b' ! i = p then 1 else 0) + (if b' ! i = opponent p then 1 else (0::int)))
        = (\<Sum>i = 1..88. (if b ! i = p then 1 else 0) + (if b ! i = opponent p then 1 else 0))"
  proof (rule sum.cong)
    fix i :: nat assume "i \<in> {1..88}"
    then have "i < length b" using assms(2) by simp
    then have "b' ! i = b ! i \<or> (b ! i = opponent p \<and> b' ! i = p)"
      using assms(1) by (simp add: flips_only_def)
    then show "(if b' ! i = p then 1 else 0) + (if b' ! i = opponent p then 1 else (0::int))
               = (if b ! i = p then 1 else 0) + (if b ! i = opponent p then 1 else 0)"
      using assms(3) by auto
  qed simp
  then show ?thesis by (simp add: cnt_def sum.distrib)
qed

lemma flips_only_cnt_other:
  assumes "flips_only p b b'" "length b = 100" "v \<noteq> p" "v \<noteq> opponent p"
  shows "cnt v b' = cnt v b"
  unfolding cnt_def
proof (rule sum.cong)
  fix i :: nat assume "i \<in> {1..88}"
  then have "i < length b" using assms(2) by simp
  then have "b' ! i = b ! i \<or> (b ! i = opponent p \<and> b' ! i = p)"
    using assms(1) by (simp add: flips_only_def)
  then show "(if b' ! i = v then 1 else 0) = (if b ! i = v then 1 else (0::int))"
    using assms(3,4) by auto
qed simp

lemma sentinel_update:
  assumes "sentinel_border b" "validp m"
  shows "sentinel_border (b[nat m := x])"
  unfolding sentinel_border_def
proof (intro conjI ballI impI)
  show "length (b[nat m := x]) = 100" using assms(1) by (simp add: sentinel_border_def)
next
  fix i assume i: "i \<in> set [0 ..< 100]" "\<not> validp (int i)"
  then have "i \<noteq> nat m" using assms(2) validp_range[OF assms(2)] by auto
  then show "b[nat m := x] ! i = 3" using i assms(1) by (simp add: sentinel_border_def)
qed

section \<open>Legality and the gain of a move\<close>

text \<open>
  A move on an EMPTY interior cell: P gains the placed piece and the flipped pieces,
  the opponent loses the flipped pieces, and \<open>legalp\<close> holds exactly when at least
  one piece is flipped.
\<close>

lemma make_move_gain_on_empty:
  assumes sb: "sentinel_border B" and P: "P = BLACK \<or> P = WHITE"
    and m: "validp m" and e: "B ! nat m = EMPTY"
  shows "\<exists>B' cp co ce cp' co' ce'.
           make_move B m P = ok B'
         \<and> count P B = ok cp \<and> count (opponent P) B = ok co \<and> count EMPTY B = ok ce
         \<and> count P B' = ok cp' \<and> count (opponent P) B' = ok co' \<and> count EMPTY B' = ok ce'
         \<and> legalp B m P = ok (cp + 2 \<le> cp')
         \<and> cp + 1 \<le> cp'
         \<and> co - co' = cp' - cp - 1
         \<and> cp' + co' + ce' = cp + co + ce
         \<and> (\<forall>i < 100. B ! i = OUTER \<longrightarrow> B' ! i = OUTER)"
proof -
  have len: "length B = 100" using sb by (rule sentinel_length)
  have mr: "0 \<le> m" "m < 100" "11 \<le> m" "m \<le> 88" using m by (simp_all add: validp_iff)
  have opp: "opponent P \<noteq> P" "opponent P \<noteq> EMPTY" "P \<noteq> EMPTY"
    using P by (auto simp: opponent_def)
  let ?b0 = "B[nat m := P]"
  have wr: "wr B m P = ok ?b0" using mr len by (simp add: wr_def)
  have sb0: "sentinel_border ?b0" using sentinel_update[OF sb m] .
  have len0: "length ?b0 = 100" using len by simp
  from make_move_loop_flips[OF m P sb0, of 0] obtain B' where
    B': "make_move_loop ?b0 m P 0 = ok B'" "flips_only P ?b0 B'" by auto
  have mm: "make_move B m P = ok B'" using wr B'(1) by (simp add: make_move_def)
  have lenB': "length B' = 100" using B'(2) len0 by (simp add: flips_only_def)
  have k: "1 \<le> nat m" "nat m \<le> 88" "nat m < length B" using mr len by simp_all
  have c0P: "cnt P ?b0 = cnt P B + 1" using cnt_update[OF k, of P P] e opp by simp
  have c0O: "cnt (opponent P) ?b0 = cnt (opponent P) B"
    using cnt_update[OF k, of "opponent P" P] e opp by simp
  have c0E: "cnt EMPTY ?b0 = cnt EMPTY B - 1" using cnt_update[OF k, of EMPTY P] e opp by simp
  have mono: "cnt P ?b0 \<le> cnt P B'" using flips_only_cnt_mono[OF B'(2) len0] .
  have total: "cnt P B' + cnt (opponent P) B' = cnt P ?b0 + cnt (opponent P) ?b0"
    using flips_only_cnt_sum[OF B'(2) len0 opp(1)] .
  have empties: "cnt EMPTY B' = cnt EMPTY ?b0"
    using flips_only_cnt_other[OF B'(2) len0] opp by simp
  have wf0: "would_flip ?b0 m (ALLDIRECTIONS ! j) P = would_flip B m (ALLDIRECTIONS ! j) P"
    if "j < 8" for j
    using would_flip_update_origin[OF sb m dir_nth[OF that]] .
  have legal: "legalp B m P = ok (\<exists>j<8. would_flip B m (ALLDIRECTIONS ! j) P \<noteq> ok 0)"
    using legalp_char[OF sb m, of P] e by simp
  have gain: "(\<exists>j<8. would_flip B m (ALLDIRECTIONS ! j) P \<noteq> ok 0) = (cnt P B + 2 \<le> cnt P B')"
  proof (cases "\<exists>j<8. would_flip B m (ALLDIRECTIONS ! j) P \<noteq> ok 0")
    case False
    then have "\<forall>j. 0 \<le> j \<and> j < 8 \<longrightarrow> would_flip ?b0 m (ALLDIRECTIONS ! j) P = ok 0"
      using wf0 by simp
    from make_move_loop_none[OF sb0 m P _ this] have "make_move_loop ?b0 m P 0 = ok ?b0" by simp
    with B'(1) have "B' = ?b0" by simp
    then show ?thesis using False c0P by simp
  next
    case True
    define j where "j = (LEAST j. j < 8 \<and> would_flip B m (ALLDIRECTIONS ! j) P \<noteq> ok 0)"
    from True have j: "j < 8 \<and> would_flip B m (ALLDIRECTIONS ! j) P \<noteq> ok 0"
      unfolding j_def by - (rule LeastI_ex, blast)
    have least: "would_flip B m (ALLDIRECTIONS ! j') P = ok 0" if "j' < j" for j'
    proof (rule ccontr)
      assume "would_flip B m (ALLDIRECTIONS ! j') P \<noteq> ok 0"
      then have "j' < 8 \<and> would_flip B m (ALLDIRECTIONS ! j') P \<noteq> ok 0" using that j by simp
      then have "j \<le> j'" unfolding j_def by (rule Least_le)
      with that show False by simp
    qed
    have j8: "j < 8" using j by simp
    have w1: "would_flip ?b0 m (ALLDIRECTIONS ! j) P \<noteq> ok 0" using j wf0 by simp
    have w2: "\<forall>j'. 0 \<le> j' \<and> j' < j \<longrightarrow> would_flip ?b0 m (ALLDIRECTIONS ! j') P = ok 0"
      using least wf0 j8 by simp
    from make_move_loop_some[OF m P j8 sb0 _ w1 w2]
    obtain B'' where B'': "make_move_loop ?b0 m P 0 = ok B''"
      "?b0 ! nat (m + ALLDIRECTIONS ! j) = opponent P"
      "B'' ! nat (m + ALLDIRECTIONS ! j) = P"
      by auto
    have same: "B'' = B'" using B''(1) B'(1) by simp
    let ?c = "m + ALLDIRECTIONS ! j"
    have cr: "0 \<le> ?c" "?c < 100" using step_in_range[OF m dir_nth[OF j8]] by simp_all
    have "?b0 ! nat ?c \<noteq> 3" using B''(2) opponent_not_OUTER[of P] by simp
    from sentinel_cell[OF sb0 cr this] have "validp ?c" .
    then have "11 \<le> ?c" "?c \<le> 88" by (simp_all add: validp_iff)
    then have ck: "1 \<le> nat ?c" "nat ?c \<le> 88" by linarith+
    have "?b0 ! nat ?c \<noteq> P" using B''(2) opp by simp
    from flips_only_cnt_strict[OF B'(2) len0 ck this] B''(3) same
    have "cnt P ?b0 < cnt P B'" by simp
    then show ?thesis using True c0P by simp
  qed
  have outer: "\<forall>i < 100. B ! i = OUTER \<longrightarrow> B' ! i = OUTER"
  proof (intro allI impI)
    fix i :: nat assume i: "i < 100" "B ! i = OUTER"
    then have "i \<noteq> nat m" using e by auto
    then have "?b0 ! i = OUTER" using i by simp
    moreover have "B' ! i = ?b0 ! i \<or> (?b0 ! i = opponent P \<and> B' ! i = P)"
      using B'(2) i len0 by (simp add: flips_only_def)
    ultimately show "B' ! i = OUTER" using opponent_not_OUTER[of P] by auto
  qed
  have "count P B = ok (cnt P B)" "count (opponent P) B = ok (cnt (opponent P) B)"
    "count EMPTY B = ok (cnt EMPTY B)" "count P B' = ok (cnt P B')"
    "count (opponent P) B' = ok (cnt (opponent P) B')" "count EMPTY B' = ok (cnt EMPTY B')"
    using count_eq[OF len] count_eq[OF lenB'] by simp_all
  moreover have "legalp B m P = ok (cnt P B + 2 \<le> cnt P B')" using legal gain by simp
  moreover have "cnt P B + 1 \<le> cnt P B'" using mono c0P by simp
  moreover have "cnt (opponent P) B - cnt (opponent P) B' = cnt P B' - cnt P B - 1"
    using total c0P c0O by simp
  moreover have "cnt P B' + cnt (opponent P) B' + cnt EMPTY B'
                 = cnt P B + cnt (opponent P) B + cnt EMPTY B"
    using total c0P c0O c0E empties by simp
  ultimately show ?thesis using mm outer by blast
qed

text \<open>
  C6. On a board with the sentinel border, for a player \<open>P\<close> in BLACK, WHITE and an
  interior move \<open>m\<close> (its cell holds EMPTY, BLACK or WHITE, as every interior cell of a
  board does): \<open>make_move\<close> returns, and \<open>legalp\<close> is true if and only if P's count
  grows by at least 2 and the opponent's count falls by exactly the flipped amount, P's
  gain less the placed piece; the combined count of BLACK, WHITE and EMPTY cells is
  conserved, and no OUTER cell is overwritten.
\<close>

theorem legalp_iff_make_move_gains:
  assumes sb: "sentinel_border B" and P: "P = BLACK \<or> P = WHITE"
    and m: "validp m"
    and v: "B ! nat m = EMPTY \<or> B ! nat m = BLACK \<or> B ! nat m = WHITE"
  shows "\<exists>B' cp co ce cp' co' ce'.
           make_move B m P = ok B'
         \<and> count P B = ok cp \<and> count (opponent P) B = ok co \<and> count EMPTY B = ok ce
         \<and> count P B' = ok cp' \<and> count (opponent P) B' = ok co' \<and> count EMPTY B' = ok ce'
         \<and> legalp B m P = ok (cp + 2 \<le> cp' \<and> co - co' = cp' - cp - 1)
         \<and> cp' + co' + ce' = cp + co + ce
         \<and> (\<forall>i < 100. B ! i = OUTER \<longrightarrow> B' ! i = OUTER)"
proof (cases "B ! nat m = EMPTY")
  case True
  from make_move_gain_on_empty[OF sb P m True]
  obtain B' cp co ce cp' co' ce' where h:
    "make_move B m P = ok B'"
    "count P B = ok cp" "count (opponent P) B = ok co" "count EMPTY B = ok ce"
    "count P B' = ok cp'" "count (opponent P) B' = ok co'" "count EMPTY B' = ok ce'"
    "legalp B m P = ok (cp + 2 \<le> cp')"
    "co - co' = cp' - cp - 1"
    "cp' + co' + ce' = cp + co + ce"
    "\<forall>i < 100. B ! i = OUTER \<longrightarrow> B' ! i = OUTER"
    by blast
  have "legalp B m P = ok (cp + 2 \<le> cp' \<and> co - co' = cp' - cp - 1)"
    using h(8,9) by simp
  with h show ?thesis by blast
next
  case False
  have len: "length B = 100" using sb by (rule sentinel_length)
  have mr: "0 \<le> m" "m < 100" "11 \<le> m" "m \<le> 88" using m by (simp_all add: validp_iff)
  have opp: "opponent P \<noteq> P" "opponent P \<noteq> EMPTY" "P \<noteq> EMPTY"
    using P by (auto simp: opponent_def)
  have occ: "B ! nat m = P \<or> B ! nat m = opponent P"
    using v False P by (auto simp: opponent_def)
  let ?b0 = "B[nat m := P]"
  have wr: "wr B m P = ok ?b0" using mr len by (simp add: wr_def)
  have sb0: "sentinel_border ?b0" using sentinel_update[OF sb m] .
  have len0: "length ?b0 = 100" using len by simp
  from make_move_loop_flips[OF m P sb0, of 0] obtain B' where
    B': "make_move_loop ?b0 m P 0 = ok B'" "flips_only P ?b0 B'" by auto
  have mm: "make_move B m P = ok B'" using wr B'(1) by (simp add: make_move_def)
  have lenB': "length B' = 100" using B'(2) len0 by (simp add: flips_only_def)
  have k: "1 \<le> nat m" "nat m \<le> 88" "nat m < length B" using mr len by simp_all
  have c0: "cnt P ?b0 + cnt (opponent P) ?b0 = cnt P B + cnt (opponent P) B"
    using cnt_update[OF k, of P P] cnt_update[OF k, of "opponent P" P] occ opp by auto
  have c0E: "cnt EMPTY ?b0 = cnt EMPTY B"
    using cnt_update[OF k, of EMPTY P] False opp by simp
  have total: "cnt P B' + cnt (opponent P) B' = cnt P ?b0 + cnt (opponent P) ?b0"
    using flips_only_cnt_sum[OF B'(2) len0 opp(1)] .
  have empties: "cnt EMPTY B' = cnt EMPTY ?b0"
    using flips_only_cnt_other[OF B'(2) len0] opp by simp
  have legal: "legalp B m P = ok False"
    using legalp_char[OF sb m, of P] False by simp
  have loss: "cnt (opponent P) B - cnt (opponent P) B' \<noteq> cnt P B' - cnt P B - 1"
    using total c0 by simp
  have outer: "\<forall>i < 100. B ! i = OUTER \<longrightarrow> B' ! i = OUTER"
  proof (intro allI impI)
    fix i :: nat assume i: "i < 100" "B ! i = OUTER"
    then have "i \<noteq> nat m" using v by auto
    then have "?b0 ! i = OUTER" using i by simp
    moreover have "B' ! i = ?b0 ! i \<or> (?b0 ! i = opponent P \<and> B' ! i = P)"
      using B'(2) i len0 by (simp add: flips_only_def)
    ultimately show "B' ! i = OUTER" using opponent_not_OUTER[of P] by auto
  qed
  have "count P B = ok (cnt P B)" "count (opponent P) B = ok (cnt (opponent P) B)"
    "count EMPTY B = ok (cnt EMPTY B)" "count P B' = ok (cnt P B')"
    "count (opponent P) B' = ok (cnt (opponent P) B')" "count EMPTY B' = ok (cnt EMPTY B')"
    using count_eq[OF len] count_eq[OF lenB'] by simp_all
  moreover have "legalp B m P
      = ok (cnt P B + 2 \<le> cnt P B'
            \<and> cnt (opponent P) B - cnt (opponent P) B' = cnt P B' - cnt P B - 1)"
    using legal loss by simp
  moreover have "cnt P B' + cnt (opponent P) B' + cnt EMPTY B'
                 = cnt P B + cnt (opponent P) B + cnt EMPTY B"
    using total c0 c0E empties by simp
  ultimately show ?thesis using mm outer by blast
qed

theorem legalp_iff_make_move_gains_witness:
  "sentinel_border initialise_board \<and> (BLACK = BLACK \<or> BLACK = WHITE) \<and> validp 34
   \<and> (initialise_board ! nat 34 = EMPTY \<or> initialise_board ! nat 34 = BLACK
        \<or> initialise_board ! nat 34 = WHITE)
   \<and> (\<exists>B' cp co ce cp' co' ce'.
           make_move initialise_board 34 BLACK = ok B'
         \<and> count BLACK initialise_board = ok cp \<and> count (opponent BLACK) initialise_board = ok co
         \<and> count EMPTY initialise_board = ok ce
         \<and> count BLACK B' = ok cp' \<and> count (opponent BLACK) B' = ok co' \<and> count EMPTY B' = ok ce'
         \<and> legalp initialise_board 34 BLACK = ok (cp + 2 \<le> cp' \<and> co - co' = cp' - cp - 1)
         \<and> cp' + co' + ce' = cp + co + ce
         \<and> (\<forall>i < 100. initialise_board ! i = OUTER \<longrightarrow> B' ! i = OUTER))"
proof -
  have h1: "sentinel_border initialise_board" by code_simp
  have h2: "BLACK = BLACK \<or> BLACK = WHITE" by simp
  have h3: "validp 34" by code_simp
  have h4: "initialise_board ! nat 34 = EMPTY \<or> initialise_board ! nat 34 = BLACK
            \<or> initialise_board ! nat 34 = WHITE" by code_simp
  show ?thesis using h1 h3 h4 legalp_iff_make_move_gains[OF h1 h2 h3 h4] by blast
qed

text \<open>
  A move on an occupied cell, evaluated: on \<open>occupied_board\<close> the cell 22 is BLACK
  already, and \<open>make_move\<close> flips the WHITE pieces on 23 and 32. \<open>legalp\<close> is
  false; BLACK gains 2 and WHITE loses 2, so WHITE's loss is not BLACK's gain less a
  placed piece.
\<close>

lemma make_move_on_occupied_cell:
  "sentinel_border occupied_board \<and> validp 22
   \<and> rd occupied_board 22 = ok BLACK
   \<and> rd occupied_board 23 = ok WHITE \<and> rd occupied_board 32 = ok WHITE
   \<and> legalp occupied_board 22 BLACK = ok False
   \<and> make_move occupied_board 22 BLACK = ok occupied_board_after
   \<and> occupied_board_after = occupied_board[23 := BLACK, 32 := BLACK]
   \<and> count BLACK occupied_board = ok 3 \<and> count BLACK occupied_board_after = ok 5
   \<and> count WHITE occupied_board = ok 2 \<and> count WHITE occupied_board_after = ok 0
   \<and> count EMPTY occupied_board = ok 59 \<and> count EMPTY occupied_board_after = ok 59
   \<and> sentinel_border occupied_board_after"
  by code_simp

section \<open>The search at concrete inputs\<close>

text \<open>\<open>wipeout_board\<close> arises in a game: eight legal moves from the initial board.\<close>

lemma wipeout_board_reachable:
  "seq (legalp initialise_board 65 BLACK) (\<lambda>l1.
   seq (make_move initialise_board 65 BLACK) (\<lambda>b1.
   seq (legalp b1 46 WHITE) (\<lambda>l2.
   seq (make_move b1 46 WHITE) (\<lambda>b2.
   seq (legalp b2 35 BLACK) (\<lambda>l3.
   seq (make_move b2 35 BLACK) (\<lambda>b3.
   seq (legalp b3 66 WHITE) (\<lambda>l4.
   seq (make_move b3 66 WHITE) (\<lambda>b4.
   seq (legalp b4 57 BLACK) (\<lambda>l5.
   seq (make_move b4 57 BLACK) (\<lambda>b5.
   seq (legalp b5 64 WHITE) (\<lambda>l6.
   seq (make_move b5 64 WHITE) (\<lambda>b6.
   seq (legalp b6 75 BLACK) (\<lambda>l7.
   seq (make_move b6 75 BLACK) (\<lambda>b7.
   seq (legalp b7 56 WHITE) (\<lambda>l8.
   seq (make_move b7 56 WHITE) (\<lambda>b8.
   ok (l1 \<and> l2 \<and> l3 \<and> l4 \<and> l5 \<and> l6 \<and> l7 \<and> l8, b8)))))))))))))))))
   = ok (True, wipeout_board)"
  by code_simp

text \<open>
  C1. \<open>minimax\<close> is called as \<open>serial\<close> calls it, on the authoritative board and for
  the legal root move 53. When it returns, the global pointer still points to block 0,
  and that block holds the board with the move 53 played: \<open>make_move\<close> in
  \<open>alpha_beta\<close> wrote the authoritative board itself, not a copy.
\<close>

theorem minimax_overwrites_authoritative_board:
  "legal_moves (cur wipeout_state) (my_colour wipeout_state) = ok [33, 43, 47, 53, 63, 67, 73]
   \<and> (case minimax wipeout_state 53 (my_colour wipeout_state) (board wipeout_state) of
         Some (Inr (r, s')) \<Rightarrow>
           board s' = board wipeout_state
           \<and> cur s' = wipeout_board_after
           \<and> cur s' \<noteq> cur wipeout_state
       | _ \<Rightarrow> False)"
  by code_simp

text \<open>
  \<open>serial\<close> restores the board from its saved copy after each \<open>minimax\<close> call and
  then plays the root move just searched on it: it returns the best move 34, and the
  board it leaves behind has the last root move 44 played.
\<close>

lemma serial_leaves_last_root_move:
  "legal_moves (cur search_state) BLACK = ok [34, 43, 44]
   \<and> make_move search_board 44 BLACK = ok (search_board[33 := BLACK, 44 := BLACK])
   \<and> (case serial search_state BLACK of
         Some (Inr (best_move, s')) \<Rightarrow>
           best_move = 34 \<and> cur s' = search_board[33 := BLACK, 44 := BLACK]
       | _ \<Rightarrow> False)"
  by code_simp

text \<open>
  C2. At depth 0 \<open>alpha_beta\<close> returns the evaluation of the board it was sent, -333
  here, without playing \<open>move_made\<close>; the board after the legal move 43 evaluates
  to 506. \<open>minimax\<close> reaches depth 0 on this input, since BLACK has two legal moves
  and there is one process.
\<close>

theorem alpha_beta_depth_0_skips_move:
  "legal_moves (cur depth0_state) (my_colour depth0_state) = ok [43, 47]
   \<and> dynamic_depth (size_mpi depth0_state) 2 = 0
   \<and> (case alpha_beta depth0_state 43 (- 10000) 10000 BLACK 0 (board depth0_state) of
         Some (Inr (r, s')) \<Rightarrow> r = - 333 \<and> cur s' = mobility_board
       | _ \<Rightarrow> False)
   \<and> (case minimax depth0_state 43 BLACK (board depth0_state) of
         Some (Inr (r, s')) \<Rightarrow> r = - 333
       | _ \<Rightarrow> False)
   \<and> evaluate mobility_board BLACK BLACK mobility_board = ok (- 333)
   \<and> make_move mobility_board 43 BLACK = ok mobility_board_after
   \<and> evaluate mobility_board BLACK BLACK mobility_board_after = ok 506
   \<and> evaluate mobility_board_after BLACK BLACK mobility_board_after = ok 506"
  by code_simp

section \<open>The evaluator at concrete inputs\<close>

text \<open>
  Whenever \<open>evaluate\<close> returns, its mobility term is 0; and its corner-closeness term
  is 0 on every board none of whose cells holds 46.
\<close>

lemma evaluate_mobility_always_zero:
  assumes "evaluate_terms g mc p b = ok t"
  shows "mobility t = 0"
proof -
  from assms obtain n st where "mobility t = (3 - st) * (if n + n \<noteq> 0 then 100 * (n - n) sdiv (n + n) else 0)"
    unfolding evaluate_terms_def Let_def
    by (auto split: option.splits sum.splits prod.splits if_splits)
  then show ?thesis by simp
qed

lemma closeness_at_never_counts:
  assumes "closeness_at b p opp pc corner adj = ok pc'" and "\<forall>i < length b. b ! i \<noteq> 46"
  shows "pc' = pc"
proof (cases "0 \<le> corner \<and> corner < int (length b)")
  case True
  then have "nat corner < length b" by (simp add: nat_less_iff)
  with assms(2) have "b ! nat corner \<noteq> 46" by blast
  with assms(1) True show ?thesis by (simp add: closeness_at_def rd_def)
next
  case False
  with assms(1) show ?thesis by (simp add: closeness_at_def rd_def)
qed

lemma evaluate_closeness_always_zero:
  assumes "evaluate_terms g mc p b = ok t" and c: "\<forall>i < length b. b ! i \<noteq> 46"
  shows "cc t = 0"
proof -
  from assms(1) obtain pc1 pc2 pc3 pc4 where
    "closeness_at b p (opponent p) (0, 0) 11 [12, 22, 21] = ok pc1"
    "closeness_at b p (opponent p) pc1 18 [17, 27, 28] = ok pc2"
    "closeness_at b p (opponent p) pc2 81 [82, 72, 71] = ok pc3"
    "closeness_at b p (opponent p) pc3 88 [78, 77, 87] = ok pc4"
    "cc t = (- 125 * (fst pc4 - snd pc4)) sdiv 10"
    unfolding evaluate_terms_def Let_def
    by (auto split: option.splits sum.splits prod.splits if_splits)
  then have "pc4 = (0, 0)"
    using closeness_at_never_counts[OF _ c] by metis
  with \<open>cc t = _\<close> show ?thesis by simp
qed

text \<open>
  C3. On \<open>wipeout_board\<close> BLACK has 7 legal moves and WHITE has 13, and the game
  stage is 1, so the mobility term of the claim is \<open>(3 - 1) * (100 * (7 - 13) / (7 + 13))\<close>,
  that is -60. \<open>evaluate\<close> computes 0: it counts the moves of \<open>player\<close> for both
  \<open>pmoves\<close> and \<open>omoves\<close>.
\<close>

theorem evaluate_mobility_is_zero:
  "num_valid_moves wipeout_board BLACK wipeout_board = ok 7
   \<and> num_valid_moves wipeout_board WHITE wipeout_board = ok 13
   \<and> game_stage wipeout_board BLACK = ok 1
   \<and> (case evaluate_terms wipeout_board BLACK BLACK wipeout_board of
         Some (Inr t) \<Rightarrow> mobility t = 0
       | _ \<Rightarrow> False)"
  by code_simp

text \<open>
  C4. On \<open>closeness_board\<close> the corner 11 is EMPTY and BLACK holds the adjacent cell
  12, so the corner-closeness term of the claim is \<open>-12.5 * 1\<close>, truncated to -12.
  \<open>evaluate\<close> computes 0: it compares the corner with the character \<open>'.'\<close> (46),
  not with \<open>EMPTY\<close> (0).
\<close>

theorem evaluate_corner_closeness_is_zero:
  "rd closeness_board 11 = ok EMPTY
   \<and> rd closeness_board 12 = ok BLACK
   \<and> (case evaluate_terms closeness_board BLACK BLACK closeness_board of
         Some (Inr t) \<Rightarrow> cc t = 0
       | _ \<Rightarrow> False)"
  by code_simp

text \<open>
  C5. On the board whose interior is all EMPTY both coin counts are 0 and \<open>evaluate\<close>
  divides by zero: the parity division has no guard.
\<close>

theorem evaluate_empty_interior_divides_by_zero:
  "evaluate_loop BLACK WHITE empty_interior 1 (0, 0, 0, 0) = ok (0, 0, 0, 0)
   \<and> evaluate empty_interior BLACK BLACK empty_interior = fail DivByZero
   \<and> evaluate empty_interior BLACK WHITE empty_interior = fail DivByZero"
  by code_simp

section \<open>Selection of the best move\<close>

text \<open>
  What the selection loop does: if some recorded score exceeds -2000, the coordinator
  selects the first move with the greatest score; if none does, it selects the first
  recorded move, whatever its score.
\<close>

lemma select_loop_snd: "snd (select_loop recs bm bs) \<ge> bs"
  by (induction recs bm bs rule: select_loop.induct) auto

lemma select_loop_keep:
  "\<forall>r \<in> set recs. snd r \<le> bs \<Longrightarrow> select_loop recs bm bs = (bm, bs)"
  by (induction recs bm bs rule: select_loop.induct) auto

lemma select_loop_first_max:
  "\<exists>r \<in> set recs. snd r > bs \<Longrightarrow>
   \<exists>i < length recs. select_loop recs bm bs = recs ! i
      \<and> (\<forall>j < length recs. snd (recs ! j) \<le> snd (recs ! i))
      \<and> (\<forall>j < i. snd (recs ! j) < snd (recs ! i))"
proof (induction recs bm bs rule: select_loop.induct)
  case (1 bm bs)
  then show ?case by simp
next
  case (2 m sc recs bm bs)
  show ?case
  proof (cases "sc > bs")
    case True
    show ?thesis
    proof (cases "\<exists>r \<in> set recs. snd r > sc")
      case False
      then have "select_loop recs m sc = (m, sc)" by (intro select_loop_keep) auto
      then have "select_loop ((m, sc) # recs) bm bs = ((m, sc) # recs) ! 0" using True by simp
      moreover have "\<forall>j < length ((m, sc) # recs). snd (((m, sc) # recs) ! j) \<le> snd (((m, sc) # recs) ! 0)"
        using False by (auto simp: nth_Cons' not_less)
      ultimately show ?thesis by (intro exI[of _ 0]) simp
    next
      case ex: True
      from "2.IH"(1)[OF True ex] obtain i where i: "i < length recs"
        "select_loop recs m sc = recs ! i"
        "\<forall>j < length recs. snd (recs ! j) \<le> snd (recs ! i)"
        "\<forall>j < i. snd (recs ! j) < snd (recs ! i)" by blast
      have "sc \<le> snd (select_loop recs m sc)" by (rule select_loop_snd)
      moreover have "snd (select_loop recs m sc) \<noteq> sc"
      proof -
        from ex obtain r where "r \<in> set recs" "snd r > sc" by blast
        then obtain j where "j < length recs" "snd (recs ! j) > sc" by (metis in_set_conv_nth)
        with i(3) have "snd (recs ! i) > sc" by fastforce
        then show ?thesis using i(2) by simp
      qed
      ultimately have gt: "sc < snd (recs ! i)" using i(2) by simp
      have "select_loop ((m, sc) # recs) bm bs = ((m, sc) # recs) ! Suc i" using True i(2) by simp
      moreover have "\<forall>j < length ((m, sc) # recs). snd (((m, sc) # recs) ! j) \<le> snd (((m, sc) # recs) ! Suc i)"
        using i(3) gt by (auto simp: nth_Cons' less_Suc_eq_0_disj)
      moreover have "\<forall>j < Suc i. snd (((m, sc) # recs) ! j) < snd (((m, sc) # recs) ! Suc i)"
        using i(4) gt by (auto simp: nth_Cons' less_Suc_eq_0_disj)
      ultimately show ?thesis using i(1) by (intro exI[of _ "Suc i"]) simp
    qed
  next
    case False
    with "2.prems" have ex: "\<exists>r \<in> set recs. snd r > bs" by auto
    from "2.IH"(2)[OF False ex] obtain i where i: "i < length recs"
      "select_loop recs bm bs = recs ! i"
      "\<forall>j < length recs. snd (recs ! j) \<le> snd (recs ! i)"
      "\<forall>j < i. snd (recs ! j) < snd (recs ! i)" by blast
    from ex obtain r where "r \<in> set recs" "snd r > bs" by blast
    then obtain j where "j < length recs" "snd (recs ! j) > bs" by (metis in_set_conv_nth)
    with i(3) have gt: "snd (recs ! i) > sc" using False by fastforce
    have "select_loop ((m, sc) # recs) bm bs = ((m, sc) # recs) ! Suc i" using False i(2) by simp
    moreover have "\<forall>j < length ((m, sc) # recs). snd (((m, sc) # recs) ! j) \<le> snd (((m, sc) # recs) ! Suc i)"
      using i(3) gt by (auto simp: nth_Cons' less_Suc_eq_0_disj)
    moreover have "\<forall>j < Suc i. snd (((m, sc) # recs) ! j) < snd (((m, sc) # recs) ! Suc i)"
      using i(4) gt by (auto simp: nth_Cons' less_Suc_eq_0_disj)
    ultimately show ?thesis using i(1) by (intro exI[of _ "Suc i"]) simp
  qed
qed

lemma select_best_first_max:
  assumes "\<exists>r \<in> set recs. snd r > - 2000"
  shows "\<exists>i < length recs. select_best recs = ok (fst (recs ! i))
      \<and> (\<forall>j < length recs. snd (recs ! j) \<le> snd (recs ! i))
      \<and> (\<forall>j < i. snd (recs ! j) < snd (recs ! i))"
proof -
  from assms obtain r rs where recs: "recs = r # rs" by (cases recs) auto
  from select_loop_first_max[OF assms, of "fst r"] obtain i where
    "i < length recs" "select_loop recs (fst r) (- 2000) = recs ! i"
    "\<forall>j < length recs. snd (recs ! j) \<le> snd (recs ! i)"
    "\<forall>j < i. snd (recs ! j) < snd (recs ! i)" by blast
  moreover then have "select_best recs = ok (fst (recs ! i))"
    using recs by (simp add: select_best_def)
  ultimately show ?thesis by blast
qed

lemma select_best_below_sentinel:
  assumes "recs \<noteq> []" "\<forall>r \<in> set recs. snd r \<le> - 2000"
  shows "select_best recs = ok (fst (hd recs))"
  using assms select_loop_keep[of recs "- 2000" "fst (hd recs)"]
  by (cases recs) (simp_all add: select_best_def)

text \<open>
  C7. Two recorded results, both below the initial \<open>best_score\<close> of -2000: the
  coordinator keeps \<open>rec_Moves[0]\<close>, the move 34 with score -3000, although the move
  43 has the strictly greater score -2500. In \<open>serial\<close> the same constant leaves
  \<open>best_move\<close> at -100: on \<open>corner_board\<close>, where WHITE holds a corner, both root
  moves score -20666 and \<open>serial\<close> returns -100, which is no move.
\<close>

theorem select_best_misses_maximum:
  "select_best [(34, - 3000), (43, - 2500)] = ok 34
   \<and> legal_moves (cur corner_state) BLACK = ok [43, 47]
   \<and> evaluate corner_board BLACK BLACK corner_board = ok (- 20666)
   \<and> (case serial corner_state BLACK of
         Some (Inr (best_move, s')) \<Rightarrow> best_move = - 100
       | _ \<Rightarrow> False)"
  by code_simp

end
